theory Spec2Isabelle
  imports Complex_Main "HOL-Library.Log_Nat"
begin

section \<open>Data model\<close>

text \<open>
  The gesture engine works on JavaScript numbers and plain objects. Numbers are
  modelled as \<^typ>\<open>real\<close>. Arithmetic on them is exact, with one exception: the
  moving average of the online learner is fed back into itself on every observation, so
  its long-run behaviour depends on the rounding of each operation, and there every
  operation is rounded to double precision (\<open>b64\<close> below). Counters and array
  indices, which only ever hold small naturals, are \<^typ>\<open>nat\<close>. Sign names are
  strings; they are the identifiers of the gesture bank and of the geometric
  analyser, so plain identifiers and not property names of \<^verbatim>\<open>Object.prototype\<close>
  or array indices. A value that may be \<^verbatim>\<open>null\<close> or \<^verbatim>\<open>undefined\<close> is an
  \<^typ>\<open>'a option\<close>.
\<close>

text \<open>A landmark \<^verbatim>\<open>{x, y, z}\<close>.\<close>

record landmark =
  lm_x :: real
  lm_y :: real
  lm_z :: real

text \<open>
  Objects that carry a \<^verbatim>\<open>name\<close>: a bank candidate and a resolution are
  \<^verbatim>\<open>{name, score}\<close>, a geometric opinion and a smoother entry are
  \<^verbatim>\<open>{name, confidence}\<close>.
\<close>

record named =
  name :: string

record candidate = named +
  score :: real

record opinion = named +
  confidence :: real

text \<open>The five extension flags returned by \<^verbatim>\<open>fingerStates\<close>.\<close>

record finger_states =
  thumb :: bool
  index :: bool
  middle :: bool
  ring :: bool
  pinky :: bool

text \<open>Per-sign statistics of the online learner: \<^verbatim>\<open>{ema, count}\<close>.\<close>

record stat =
  ema :: real
  count :: nat

section \<open>Geometric analyser\<close>

text \<open>The helpers below are only called on arrays of at least 21 landmarks.\<close>

definition dist_lm :: "landmark \<Rightarrow> landmark \<Rightarrow> real" where
  "dist_lm a b =
     sqrt ((lm_x a - lm_x b)\<^sup>2 + (lm_y a - lm_y b)\<^sup>2 + (lm_z a - lm_z b)\<^sup>2)"

definition handScale :: "landmark list \<Rightarrow> real" where
  "handScale lm = max 0.01 (dist_lm (lm ! 0) (lm ! 9))"

definition isExtended :: "landmark list \<Rightarrow> nat \<Rightarrow> nat \<Rightarrow> real \<Rightarrow> bool" where
  "isExtended lm tip mcp threshold =
     (let sc = handScale lm;
          tipD = dist_lm (lm ! 0) (lm ! tip) / sc;
          mcpD = dist_lm (lm ! 0) (lm ! mcp) / sc
      in tipD > mcpD * threshold)"

definition angleDeg :: "landmark \<Rightarrow> landmark \<Rightarrow> landmark \<Rightarrow> real" where
  "angleDeg a b c =
     (let abx = lm_x a - lm_x b; aby = lm_y a - lm_y b; abz = lm_z a - lm_z b;
          cbx = lm_x c - lm_x b; cby = lm_y c - lm_y b; cbz = lm_z c - lm_z b;
          dot = abx * cbx + aby * cby + abz * cbz;
          mag = sqrt (abx\<^sup>2 + aby\<^sup>2 + abz\<^sup>2) * sqrt (cbx\<^sup>2 + cby\<^sup>2 + cbz\<^sup>2)
      in if mag < 1 / 10 ^ 8 then 0
         else arccos (min 1 (max (- 1) (dot / mag))) * (180 / pi))"

definition fingerStates :: "landmark list \<Rightarrow> finger_states" where
  "fingerStates lm =
     \<lparr> thumb = isExtended lm 4 2 1.30,
       index = isExtended lm 8 5 1.60,
       middle = isExtended lm 12 9 1.60,
       ring = isExtended lm 16 13 1.55,
       pinky = isExtended lm 20 17 1.45 \<rparr>"

definition thumbUp :: "landmark list \<Rightarrow> bool" where
  "thumbUp lm = (lm_y (lm ! 4) < lm_y (lm ! 5))"

definition thumbDown :: "landmark list \<Rightarrow> bool" where
  "thumbDown lm = (lm_y (lm ! 4) > lm_y (lm ! 9))"

text \<open>
  \<^verbatim>\<open>classify\<close> is a sequence of blocks, each of which either returns an opinion
  or falls through to the next one; \<open>first_some\<close> is that sequencing.
\<close>

fun first_some :: "'a option list \<Rightarrow> 'a option" where
  "first_some [] = None"
| "first_some (Some v # rest) = Some v"
| "first_some (None # rest) = first_some rest"

definition classify :: "landmark list option \<Rightarrow> opinion option" where
  "classify hand =
     (case hand of
        None \<Rightarrow> None
      | Some lm \<Rightarrow>
          if length lm < 21 then None
          else
            let fs = fingerStates lm;
                sc = handScale lm;
                ext = [thumb fs, index fs, middle fs, ring fs, pinky fs];
                extCount = length (filter id ext)
            in first_some
              [ \<comment> \<open>THUMBS UP / DOWN\<close>
                if thumb fs \<and> \<not> index fs \<and> \<not> middle fs \<and> \<not> ring fs \<and> \<not> pinky fs
                then (if thumbUp lm then Some \<lparr>name = ''THUMBS UP'', confidence = 0.95\<rparr>
                      else if thumbDown lm
                      then Some \<lparr>name = ''THUMBS DOWN'', confidence = 0.95\<rparr>
                      else None)
                else None,
                \<comment> \<open>L (thumb + index only, perpendicular)\<close>
                if thumb fs \<and> index fs \<and> \<not> middle fs \<and> \<not> ring fs \<and> \<not> pinky fs
                then (let angle = angleDeg (lm ! 4) (lm ! 2) (lm ! 5)
                      in if angle > 58 then Some \<lparr>name = ''L'', confidence = 0.90\<rparr>
                         else None)
                else None,
                \<comment> \<open>I LOVE YOU (thumb + index + pinky)\<close>
                if thumb fs \<and> index fs \<and> \<not> middle fs \<and> \<not> ring fs \<and> pinky fs
                then Some \<lparr>name = ''I LOVE YOU'', confidence = 0.92\<rparr>
                else None,
                \<comment> \<open>Y (thumb + pinky only)\<close>
                if thumb fs \<and> \<not> index fs \<and> \<not> middle fs \<and> \<not> ring fs \<and> pinky fs
                then Some \<lparr>name = ''Y'', confidence = 0.88\<rparr>
                else None,
                \<comment> \<open>CALL ME (thumb + pinky horizontal)\<close>
                if thumb fs \<and> \<not> index fs \<and> \<not> middle fs \<and> \<not> ring fs \<and> pinky fs
                then (let pinkyVec_x = lm_x (lm ! 20) - lm_x (lm ! 17);
                          pinkyVec_y = lm_y (lm ! 20) - lm_y (lm ! 17);
                          isHoriz = (\<bar>pinkyVec_x\<bar> > \<bar>pinkyVec_y\<bar> * 1.4)
                      in if isHoriz then Some \<lparr>name = ''CALL ME'', confidence = 0.85\<rparr>
                         else None)
                else None,
                \<comment> \<open>ALL 5 EXTENDED\<close>
                if extCount = 5
                then (let spread = dist_lm (lm ! 8) (lm ! 20) / sc;
                          idxUp = (lm_y (lm ! 8) - lm_y (lm ! 5) < - 0.05)
                      in if idxUp \<and> spread > 1.2
                         then Some \<lparr>name = ''STOP'', confidence = 0.85\<rparr>
                         else if idxUp \<and> spread \<le> 1.2
                         then Some \<lparr>name = ''HELLO'', confidence = 0.80\<rparr>
                         else None)
                else None,
                \<comment> \<open>D (index only, others curl around thumb)\<close>
                if index fs \<and> \<not> middle fs \<and> \<not> ring fs \<and> \<not> pinky fs
                then (let thumbToMid = dist_lm (lm ! 4) (lm ! 12) / sc;
                          conf = (if thumbToMid < 0.6 then 0.84 else 0.72)
                      in Some \<lparr>name = ''D'', confidence = conf\<rparr>)
                else None,
                \<comment> \<open>W (index + middle + ring extended, no thumb/pinky)\<close>
                if \<not> thumb fs \<and> index fs \<and> middle fs \<and> ring fs \<and> \<not> pinky fs
                then Some \<lparr>name = ''W'', confidence = 0.86\<rparr>
                else None,
                \<comment> \<open>U vs V (index + middle, no others)\<close>
                if \<not> thumb fs \<and> index fs \<and> middle fs \<and> \<not> ring fs \<and> \<not> pinky fs
                then (let spread = dist_lm (lm ! 8) (lm ! 12) / sc
                      in if spread > 0.70 then Some \<lparr>name = ''V'', confidence = 0.88\<rparr>
                         else Some \<lparr>name = ''U'', confidence = 0.84\<rparr>)
                else None,
                \<comment> \<open>OK (index+thumb pinch, 3 up)\<close>
                if extCount = 3 \<and> middle fs \<and> ring fs \<and> pinky fs
                then (let pinch = dist_lm (lm ! 4) (lm ! 8) / sc
                      in if pinch < 0.40 then Some \<lparr>name = ''OK'', confidence = 0.86\<rparr>
                         else None)
                else None,
                \<comment> \<open>EAT (all fingers curled, thumb direction)\<close>
                if extCount = 0
                then (let thumbVecY = lm_y (lm ! 4) - lm_y (lm ! 3)
                      in if thumbVecY < - 0.05
                         then Some \<lparr>name = ''EAT'', confidence = 0.70\<rparr>
                         else None)
                else None
              ])"

section \<open>Double-precision arithmetic\<close>

text \<open>
  A JavaScript number is an IEEE 754 binary64 value, and an arithmetic operation on
  finite values returns the exact result rounded to the nearest such value, a tie going
  to the value with the even significand. The finite doubles are the reals
  \<open>m * 2 ^ e\<close> with an integer \<open>\<bar>m\<bar> < 2 ^ 53\<close> and \<open>- 1074 \<le> e \<le> 971\<close>. The
  rounding is modelled on the reals; overflow to an infinity and \<^verbatim>\<open>NaN\<close> are not,
  so \<open>b64\<close> is the rounding of a result whose magnitude stays below \<open>2 ^ 1024\<close>.
\<close>

text \<open>Rounding to the nearest integer, ties to the even one.\<close>

definition round_half_even :: "real \<Rightarrow> int" where
  "round_half_even y =
     (let f = \<lfloor>y\<rfloor>; r = y - of_int f
      in if r < 1 / 2 then f else if 1 / 2 < r then f + 1 else if even f then f else f + 1)"

text \<open>
  Rounding a nonnegative real to \<open>p\<close> significant bits, but to no less than a whole
  number: the quantum is \<open>2 ^ (n - p)\<close> for a number whose integer part has \<open>n\<close>
  bits, and 1 when \<open>n \<le> p\<close> (the subtraction is on naturals).
\<close>

definition round_sig :: "nat \<Rightarrow> real \<Rightarrow> real" where
  "round_sig p X =
     (let Q = 2 ^ (floorlog 2 (nat \<lfloor>X\<rfloor>) - p)
      in of_int (round_half_even (X / Q)) * Q)"

text \<open>
  Rounding to \<open>p\<close> significant bits with the least quantum \<open>2 ^ - s\<close>, symmetric in
  the sign.
\<close>

definition round_to :: "nat \<Rightarrow> nat \<Rightarrow> real \<Rightarrow> real" where
  "round_to p s x = sgn x * round_sig p (\<bar>x\<bar> * 2 ^ s) / 2 ^ s"

text \<open>
  Double precision: 53 significant bits, and the least quantum \<open>2 ^ - 1074\<close> is the
  spacing of the subnormal numbers.
\<close>

definition b64 :: "real \<Rightarrow> real" where
  "b64 x = round_to 53 1074 x"

text \<open>The finite doubles.\<close>

definition is_b64 :: "real \<Rightarrow> bool" where
  "is_b64 x \<longleftrightarrow> b64 x = x \<and> \<bar>x\<bar> < 2 ^ 1024"

section \<open>Online learner\<close>

text \<open>
  The literal \<^verbatim>\<open>0.12\<close> denotes the double nearest to 0.12; 2.5 and 8.5 are
  doubles.
\<close>

definition EMA_ALPHA :: real where
  "EMA_ALPHA = b64 0.12"

definition MAX_OFFSET :: real where
  "MAX_OFFSET = 2.5"

definition MIN_CONFIRM :: nat where
  "MIN_CONFIRM = 8"

definition TARGET_SCORE :: real where
  "TARGET_SCORE = 8.5"

text \<open>The table \<^verbatim>\<open>stats\<close>, keyed by sign name; the operations return the new table.\<close>

type_synonym stats = "string \<rightharpoonup> stat"

text \<open>
  \<^verbatim>\<open>observe\<close> evaluates \<^verbatim>\<open>EMA_ALPHA * rawScore + (1 - EMA_ALPHA) * s.ema\<close> in
  double precision: the two products, the difference and the sum are each rounded. The
  scores and averages it is given are finite doubles.
\<close>

definition observe :: "stats \<Rightarrow> string \<Rightarrow> real \<Rightarrow> stats" where
  "observe st nm rawScore =
     (let s = (case st nm of None \<Rightarrow> \<lparr>ema = rawScore, count = 0\<rparr> | Some s0 \<Rightarrow> s0)
      in st(nm \<mapsto> \<lparr>ema = b64 (b64 (EMA_ALPHA * rawScore) + b64 (b64 (1 - EMA_ALPHA) * ema s)),
                    count = count s + 1\<rparr>))"

definition adjust :: "stats \<Rightarrow> string \<Rightarrow> real \<Rightarrow> real" where
  "adjust st nm rawScore =
     (case st nm of
        None \<Rightarrow> rawScore
      | Some s \<Rightarrow>
          if count s < MIN_CONFIRM then rawScore
          else
            let offset = max (- MAX_OFFSET) (min MAX_OFFSET (TARGET_SCORE - ema s))
            in rawScore + offset)"

definition getCount :: "stats \<Rightarrow> string \<Rightarrow> nat" where
  "getCount st nm = (case st nm of None \<Rightarrow> 0 | Some s \<Rightarrow> count s)"

definition OnlineLearner_reset :: "stats \<Rightarrow> stats" where
  "OnlineLearner_reset st = Map.empty"

section \<open>Temporal smoother\<close>

definition WINDOW :: nat where
  "WINDOW = 9"

definition MIN_PCT :: real where
  "MIN_PCT = 0.48"

text \<open>
  The window \<^verbatim>\<open>history\<close> is a list of \<^verbatim>\<open>{name, confidence}\<close> entries, oldest
  first. \<^verbatim>\<open>push\<close> appends and shifts the oldest entry out once the window is
  longer than \<^verbatim>\<open>WINDOW\<close>.
\<close>

definition push :: "opinion list \<Rightarrow> string \<Rightarrow> real \<Rightarrow> opinion list" where
  "push history nm conf =
     (let h = history @ [\<lparr>name = nm, confidence = conf\<rparr>]
      in if length h > WINDOW then tl h else h)"

definition TemporalSmoother_reset :: "opinion list \<Rightarrow> opinion list" where
  "TemporalSmoother_reset history = []"

text \<open>
  The tables \<^verbatim>\<open>votes\<close> and \<^verbatim>\<open>confAcc\<close> are objects keyed by name, walked by
  \<^verbatim>\<open>Object.entries\<close> in the order in which their keys were first written: an
  association list. \<open>accum t k v\<close> is \<^verbatim>\<open>t[k] = (t[k] || 0) + v\<close>.
\<close>

fun accum :: "(string \<times> real) list \<Rightarrow> string \<Rightarrow> real \<Rightarrow> (string \<times> real) list" where
  "accum [] k v = [(k, 0 + v)]"
| "accum ((k', u) # t) k v = (if k' = k then (k', u + v) # t else (k', u) # accum t k v)"

text \<open>A read \<^verbatim>\<open>t[k]\<close> of a key that was written before.\<close>

fun entry_of :: "(string \<times> real) list \<Rightarrow> string \<Rightarrow> real" where
  "entry_of [] k = 0"
| "entry_of ((k', u) # t) k = (if k' = k then u else entry_of t k)"

text \<open>The \<^verbatim>\<open>forEach\<close> over the window, from index \<open>i\<close> on.\<close>

fun tally ::
  "opinion list \<Rightarrow> nat \<Rightarrow> (string \<times> real) list \<times> (string \<times> real) list \<Rightarrow>
   (string \<times> real) list \<times> (string \<times> real) list" where
  "tally [] i (votes, confAcc) = (votes, confAcc)"
| "tally (h # hs) i (votes, confAcc) =
     (let w = real i + 1
      in tally hs (i + 1) (accum votes (name h) w, accum confAcc (name h) (confidence h * w)))"

text \<open>The loop over \<^verbatim>\<open>Object.entries(votes)\<close>, carrying \<^verbatim>\<open>topName\<close> and \<^verbatim>\<open>topVote\<close>.\<close>

fun pick :: "(string \<times> real) list \<Rightarrow> real \<Rightarrow> string option \<times> real \<Rightarrow> string option \<times> real" where
  "pick [] totalW (topName, topVote) = (topName, topVote)"
| "pick ((nm, voteSum) # es) totalW (topName, topVote) =
     (let fraction = voteSum / totalW
      in if fraction \<ge> MIN_PCT \<and> voteSum > topVote
         then pick es totalW (Some nm, voteSum)
         else pick es totalW (topName, topVote))"

definition best :: "opinion list \<Rightarrow> opinion option" where
  "best history =
     (let n = length history
      in if n < 2 then None
         else
           let (votes, confAcc) = tally history 0 ([], []);
               totalW = real (n * (n + 1)) / 2;
               (topName, topVote) = pick votes totalW (None, 0)
           in case topName of
                None \<Rightarrow> None
              | Some nm \<Rightarrow>
                  \<comment> \<open>\<^verbatim>\<open>!topName\<close> also holds of the empty string\<close>
                  if nm = [] then None
                  else Some \<lparr>name = nm,
                             confidence = min 1 (entry_of confAcc nm / entry_of votes nm)\<rparr>)"

text \<open>
  The vote as the specification words it, to compare \<open>best\<close> with: the entry at
  position \<open>i\<close> (from 0, oldest first) has weight \<open>i + 1\<close>; a name's votes are the
  weights of its entries, its confidence sum adds confidence times weight, the total
  weight of a window of length \<open>n\<close> is \<open>n(n+1)/2\<close>, and a name is eligible when its
  share of the total weight is at least 0.48.
\<close>

definition spec_votes :: "opinion list \<Rightarrow> string \<Rightarrow> real" where
  "spec_votes h nm = (\<Sum>i<length h. if name (h ! i) = nm then real i + 1 else 0)"

definition spec_conf_sum :: "opinion list \<Rightarrow> string \<Rightarrow> real" where
  "spec_conf_sum h nm =
     (\<Sum>i<length h. if name (h ! i) = nm then confidence (h ! i) * (real i + 1) else 0)"

definition spec_total_weight :: "opinion list \<Rightarrow> real" where
  "spec_total_weight h = real (length h) * (real (length h) + 1) / 2"

definition spec_eligible :: "opinion list \<Rightarrow> string \<Rightarrow> bool" where
  "spec_eligible h nm = (spec_votes h nm / spec_total_weight h \<ge> 0.48)"

section \<open>Conflict resolver\<close>

text \<open>
  The disambiguation rules of \<^verbatim>\<open>resolve\<close>, reached when neither the agreement
  boost nor the geometric override returned. Every rule block returns.
\<close>

definition disambiguate :: "candidate \<Rightarrow> landmark list \<Rightarrow> real \<Rightarrow> candidate" where
  "disambiguate top_cand lm sc =
     (if name top_cand = ''A'' \<or> name top_cand = ''S'' then
        (let thumbOverFingers = (lm_y (lm ! 4) > lm_y (lm ! 6))
         in \<lparr>name = (if thumbOverFingers then ''S'' else ''A''), score = score top_cand\<rparr>)
      else if name top_cand \<in> set [''M'', ''N'', ''S'', ''T''] then
        (let fs = fingerStates lm;
             allCurled = (\<not> index fs \<and> \<not> middle fs \<and> \<not> ring fs \<and> \<not> pinky fs);
             thumbX = lm_x (lm ! 4);
             thumbY = lm_y (lm ! 4);
             midPalmX = lm_x (lm ! 9);
             indexKnY = lm_y (lm ! 5);
             thumbAcross = (\<bar>thumbX - midPalmX\<bar> < 0.13)
         in if allCurled then
              (if thumbY < indexKnY \<and> \<not> thumbAcross then \<lparr>name = ''T'', score = score top_cand\<rparr>
               else if thumbAcross then \<lparr>name = ''S'', score = score top_cand\<rparr>
               else
                 let indexOverThumb = (lm_y (lm ! 8) > lm_y (lm ! 4));
                     middleOverThumb = (lm_y (lm ! 12) > lm_y (lm ! 4));
                     ringOverThumb = (lm_y (lm ! 16) > lm_y (lm ! 4));
                     fingersOver =
                       length (filter id [indexOverThumb, middleOverThumb, ringOverThumb])
                 in \<lparr>name = (if fingersOver \<ge> 3 then ''M'' else ''N''), score = score top_cand\<rparr>)
            else \<lparr>name = name top_cand, score = score top_cand\<rparr>)
      else if name top_cand = ''U'' \<or> name top_cand = ''R'' then
        (let idxLean = lm_x (lm ! 8) - lm_x (lm ! 5);
             midLean = lm_x (lm ! 12) - lm_x (lm ! 9);
             crossed = (sgn idxLean \<noteq> sgn midLean)
         in \<lparr>name = (if crossed then ''R'' else ''U''), score = score top_cand\<rparr>)
      else if name top_cand = ''V'' \<or> name top_cand = ''PEACE'' then
        (let thumbDist = dist_lm (lm ! 4) (lm ! 0) / sc
         in \<lparr>name = (if thumbDist > 1.18 then ''PEACE'' else ''V''), score = score top_cand\<rparr>)
      else if name top_cand = ''F'' \<or> name top_cand = ''OK'' then
        (let pinch = dist_lm (lm ! 4) (lm ! 8) / sc
         in \<lparr>name = (if pinch < 0.36 then ''OK'' else ''F''), score = score top_cand\<rparr>)
      else if name top_cand = ''GOOD'' \<or> name top_cand = ''THANKS'' then
        (let midVecX = lm_x (lm ! 12) - lm_x (lm ! 9)
         in \<lparr>name = (if midVecX > 0.08 then ''THANKS'' else ''GOOD''), score = score top_cand\<rparr>)
      else if name top_cand = ''BAD'' \<or> name top_cand = ''PLEASE'' \<or> name top_cand = ''WAIT'' then
        (let midVecY = lm_y (lm ! 12) - lm_y (lm ! 9)
         in if midVecY > 0.06 then \<lparr>name = ''BAD'', score = score top_cand\<rparr>
            else \<lparr>name = (if name top_cand = ''WAIT'' then ''WAIT'' else ''PLEASE''),
                   score = score top_cand\<rparr>)
      else if name top_cand \<in> set [''C'', ''O'', ''EAT'', ''HOT'', ''DRINK''] then
        (let tipSpread = dist_lm (lm ! 8) (lm ! 4) / sc;
             midVecY = lm_y (lm ! 12) - lm_y (lm ! 9)
         in if tipSpread < 0.28 then \<lparr>name = ''O'', score = score top_cand\<rparr>
            else if midVecY < - 0.06 then \<lparr>name = ''EAT'', score = score top_cand\<rparr>
            else if midVecY > 0.08 then \<lparr>name = ''HOT'', score = score top_cand\<rparr>
            else \<lparr>name = ''C'', score = score top_cand\<rparr>)
      else if name top_cand = ''CALL ME'' \<or> name top_cand = ''Y'' then
        (let pinkyVec_x = lm_x (lm ! 20) - lm_x (lm ! 17);
             pinkyVec_y = lm_y (lm ! 20) - lm_y (lm ! 17);
             isHoriz = (\<bar>pinkyVec_x\<bar> > \<bar>pinkyVec_y\<bar> * 1.3)
         in \<lparr>name = (if isHoriz then ''CALL ME'' else ''Y''), score = score top_cand\<rparr>)
      else if name top_cand = ''SLOW'' \<or> name top_cand = ''HELLO'' then
        (let spread = dist_lm (lm ! 8) (lm ! 20) / sc
         in \<lparr>name = (if spread < 0.9 then ''SLOW'' else ''HELLO''), score = score top_cand\<rparr>)
      else \<lparr>name = name top_cand, score = score top_cand\<rparr>)"

text \<open>
  \<^verbatim>\<open>resolve(candidates, lm)\<close> (\<open>top_cand\<close> is the source's \<^verbatim>\<open>top\<close>): the guards, the agreement boost, the geometric
  override, then the disambiguation rules.
\<close>

definition resolve :: "candidate list option \<Rightarrow> landmark list option \<Rightarrow> candidate option" where
  "resolve candidates hand =
     (case candidates of
        None \<Rightarrow> None
      | Some [] \<Rightarrow> None
      | Some (top_cand # others) \<Rightarrow>
          (case hand of
             None \<Rightarrow> None
           | Some lm \<Rightarrow>
               if length lm < 21 then None
               else
                 let geo = classify (Some lm);
                     sc = handScale lm
                 in first_some
                   [ \<comment> \<open>Geo engine strong agreement: boost\<close>
                     case geo of
                       None \<Rightarrow> None
                     | Some g \<Rightarrow>
                         if name g = name top_cand \<and> confidence g > 0.80
                         then Some \<lparr>name = name top_cand, score = min 10 (score top_cand * 1.12)\<rparr>
                         else None,
                     \<comment> \<open>Geo engine strong override\<close>
                     case geo of
                       None \<Rightarrow> None
                     | Some g \<Rightarrow>
                         if confidence g > 0.87 \<and> name g \<noteq> name top_cand
                         then Some \<lparr>name = name g, score = confidence g * 10\<rparr>
                         else None,
                     Some (disambiguate top_cand lm sc)
                   ]))"

section \<open>Gesture engine\<close>

text \<open>
  The engine owns the learner's table and the smoother's window. The fingerpose
  estimator is external: it is a parameter \<open>est\<close> that maps the pixel keypoints and the
  threshold to the gestures it found, or to \<open>None\<close> when it throws or returns no
  gesture list.
\<close>

record engine =
  ready :: bool
  learner :: stats
  history :: "opinion list"

type_synonym estimator = "(real \<times> real \<times> real) list \<Rightarrow> real \<Rightarrow> candidate list option"

definition js_round :: "real \<Rightarrow> real" where
  "js_round v = of_int \<lfloor>v + 1 / 2\<rfloor>"

definition detect ::
  "estimator \<Rightarrow> engine \<Rightarrow> landmark list option \<Rightarrow> real \<Rightarrow> real \<Rightarrow> real \<Rightarrow>
   opinion option \<times> engine" where
  "detect est e landmarks w h threshold =
     (case landmarks of
        None \<Rightarrow> (None, e)
      | Some lms \<Rightarrow>
          if length lms < 21 then (None, e)
          else if ready e then
            (let kp = map (\<lambda>l. (lm_x l * w, lm_y l * h, lm_z l * w)) lms;
                 fpResult = est kp threshold;
                 candidates =
                   (case fpResult of
                      Some gestures \<Rightarrow> take 4 (sort_key (\<lambda>c. - score c) gestures)
                    | None \<Rightarrow> []);
                 resolved = resolve (Some candidates) (Some lms);
                 finalResult =
                   (case resolved of
                      Some r \<Rightarrow> Some r
                    | None \<Rightarrow>
                        (case classify (Some lms) of
                           Some geo \<Rightarrow> Some \<lparr>name = name geo, score = confidence geo * 10\<rparr>
                         | None \<Rightarrow> None))
             in case finalResult of
                  None \<Rightarrow> (None, e\<lparr>history := TemporalSmoother_reset (history e)\<rparr>)
                | Some fr \<Rightarrow>
                    let adjustedScore = adjust (learner e) (name fr) (score fr);
                        rawConf = min 1.0 (max 0 (adjustedScore / 10));
                        e' = e\<lparr>history := push (history e) (name fr) rawConf\<rparr>
                    in (case best (history e') of
                          None \<Rightarrow> (None, e')
                        | Some smoothed \<Rightarrow>
                            (Some \<lparr>name = name smoothed,
                                    confidence = js_round (confidence smoothed * 100)\<rparr>, e')))
          else (None, e))"

definition confirmSign :: "engine \<Rightarrow> string \<Rightarrow> real \<Rightarrow> engine" where
  "confirmSign e nm rawFpScore = e\<lparr>learner := observe (learner e) nm rawFpScore\<rparr>"

definition GestureEngine_reset :: "engine \<Rightarrow> engine" where
  "GestureEngine_reset e = e\<lparr>history := TemporalSmoother_reset (history e)\<rparr>"

definition resetSession :: "engine \<Rightarrow> engine" where
  "resetSession e =
     e\<lparr>history := TemporalSmoother_reset (history e),
       learner := OnlineLearner_reset (learner e)\<rparr>"

section \<open>Example hands\<close>

text \<open>
  Concrete 21-landmark hands in image coordinates (\<open>y\<close> grows downwards), wrist at
  the origin, four landmarks per finger from thumb to pinky.
\<close>

definition pt :: "real \<Rightarrow> real \<Rightarrow> real \<Rightarrow> landmark" where
  "pt a b c = \<lparr>lm_x = a, lm_y = b, lm_z = c\<rparr>"

text \<open>An open hand, all five fingers stretched and fanned out.\<close>

definition hand_open :: "landmark list" where
  "hand_open =
     [pt 0 0 0,
      pt 0.2 (- 0.1) 0, pt 0.4 (- 0.3) 0, pt 0.6 (- 0.5) 0, pt 0.8 (- 0.7) 0,
      pt 0.3 (- 1) 0, pt 0.35 (- 1.4) 0, pt 0.4 (- 1.7) 0, pt 0.45 (- 2) 0,
      pt 0 (- 1) 0, pt 0 (- 1.5) 0, pt 0 (- 1.8) 0, pt 0 (- 2.1) 0,
      pt (- 0.3) (- 1) 0, pt (- 0.35) (- 1.4) 0, pt (- 0.4) (- 1.7) 0, pt (- 0.45) (- 2) 0,
      pt (- 0.6) (- 0.9) 0, pt (- 0.7) (- 1.2) 0, pt (- 0.8) (- 1.5) 0, pt (- 0.9) (- 1.7) 0]"

text \<open>Thumb and pinky stretched, the pinky pointing sideways; the other fingers curled.\<close>

definition hand_phone :: "landmark list" where
  "hand_phone =
     [pt 0 0 0,
      pt 0.2 (- 0.1) 0, pt 0.4 (- 0.3) 0, pt 0.6 (- 0.5) 0, pt 0.8 (- 0.7) 0,
      pt 0.3 (- 1) 0, pt 0.35 (- 1.3) 0, pt 0.4 (- 1.1) 0, pt 0.3 (- 0.8) 0,
      pt 0 (- 1) 0, pt 0 (- 1.3) 0, pt 0.05 (- 1.1) 0, pt 0 (- 0.8) 0,
      pt (- 0.3) (- 1) 0, pt (- 0.3) (- 1.3) 0, pt (- 0.25) (- 1.1) 0, pt (- 0.3) (- 0.8) 0,
      pt (- 0.6) (- 0.9) 0, pt (- 0.9) (- 0.95) 0, pt (- 1.3) (- 1) 0, pt (- 1.6) (- 1) 0]"

text \<open>The same hand with a spurious 22nd landmark.\<close>

definition hand_phone22 :: "landmark list" where
  "hand_phone22 = hand_phone @ [pt 0 0 0]"

text \<open>
  Thumb and index stretched, the other fingers curled. The index base (5) is straight
  above the thumb base (2); the thumb has length 1 and leaves its base at the angle
  \<open>t\<close> (in radians) from that direction.
\<close>

definition hand_angle :: "real \<Rightarrow> landmark list" where
  "hand_angle t =
     [pt 0 0 0,
      pt 0.15 (- 0.2) 0, pt 0.3 (- 0.4) 0,
      pt (0.3 + sin t / 2) (- 0.4 - cos t / 2) 0, pt (0.3 + sin t) (- 0.4 - cos t) 0,
      pt 0.3 (- 1) 0, pt 0.35 (- 1.4) 0, pt 0.4 (- 1.7) 0, pt 0.45 (- 2) 0,
      pt 0 (- 1) 0, pt 0 (- 1.3) 0, pt 0.05 (- 1.1) 0, pt 0 (- 0.8) 0,
      pt (- 0.3) (- 1) 0, pt (- 0.3) (- 1.3) 0, pt (- 0.25) (- 1.1) 0, pt (- 0.3) (- 0.8) 0,
      pt (- 0.6) (- 0.9) 0, pt (- 0.6) (- 1.1) 0, pt (- 0.55) (- 1) 0, pt (- 0.5) (- 0.7) 0]"

text \<open>A curled hand: no finger stretched, the thumb resting beside the index.\<close>

definition hand_curl :: "landmark list" where
  "hand_curl =
     [pt 0 0 0,
      pt 0.15 (- 0.2) 0, pt 0.3 (- 0.4) 0, pt 0.4 (- 0.48) 0, pt 0.3 (- 0.5) 0,
      pt 0.3 (- 1) 0, pt 0.35 (- 1.3) 0, pt 0.4 (- 1.1) 0, pt 0.3 (- 0.8) 0,
      pt 0 (- 1) 0, pt 0 (- 1.3) 0, pt 0.05 (- 1.1) 0, pt 0 (- 0.8) 0,
      pt (- 0.3) (- 1) 0, pt (- 0.3) (- 1.3) 0, pt (- 0.25) (- 1.1) 0, pt (- 0.3) (- 0.8) 0,
      pt (- 0.6) (- 0.9) 0, pt (- 0.6) (- 1.1) 0, pt (- 0.55) (- 1) 0, pt (- 0.5) (- 0.7) 0]"

definition hand_angle70 :: "landmark list" where
  "hand_angle70 = hand_angle (70 * pi / 180)"

definition hand_angle40 :: "landmark list" where
  "hand_angle40 = hand_angle (40 * pi / 180)"

section \<open>Facts about the geometric helpers\<close>

lemma handScale_pos: "0 < handScale lm"
  by (simp add: handScale_def)

lemma dist_lm_nonneg: "0 \<le> dist_lm a b"
  by (simp add: dist_lm_def)

lemma dist_lm_mult:
  "dist_lm a b * dist_lm a b =
     (lm_x a - lm_x b) * (lm_x a - lm_x b) + (lm_y a - lm_y b) * (lm_y a - lm_y b) +
     (lm_z a - lm_z b) * (lm_z a - lm_z b)"
  by (simp add: dist_lm_def power2_eq_square [symmetric])

lemma less_iff_square:
  fixes a b :: real
  assumes "0 \<le> a" "0 \<le> b"
  shows "a < b \<longleftrightarrow> a * a < b * b"
proof
  assume "a < b"
  then show "a * a < b * b" using assms by (intro mult_strict_mono') auto
next
  assume "a * a < b * b"
  show "a < b"
  proof (rule ccontr)
    assume "\<not> a < b"
    then have "b \<le> a" by simp
    then have "b * b \<le> a * a" using assms by (intro mult_mono) auto
    then show False using \<open>a * a < b * b\<close> by simp
  qed
qed

lemma isExtended_sq:
  assumes "0 \<le> th"
  shows "isExtended lm tip mcp th \<longleftrightarrow>
         (dist_lm (lm ! 0) (lm ! mcp) * dist_lm (lm ! 0) (lm ! mcp)) * (th * th)
           < dist_lm (lm ! 0) (lm ! tip) * dist_lm (lm ! 0) (lm ! tip)"
proof -
  have sc: "0 < handScale lm" by (rule handScale_pos)
  have "isExtended lm tip mcp th \<longleftrightarrow>
        dist_lm (lm ! 0) (lm ! mcp) * th < dist_lm (lm ! 0) (lm ! tip)"
    using sc by (simp add: isExtended_def Let_def field_simps)
  also have "\<dots> \<longleftrightarrow> (dist_lm (lm ! 0) (lm ! mcp) * th) * (dist_lm (lm ! 0) (lm ! mcp) * th)
       < dist_lm (lm ! 0) (lm ! tip) * dist_lm (lm ! 0) (lm ! tip)"
    using assms dist_lm_nonneg [of "lm ! 0" "lm ! mcp"] dist_lm_nonneg [of "lm ! 0" "lm ! tip"]
    by (intro less_iff_square) auto
  finally show ?thesis by (simp add: mult_ac)
qed

lemma fs_open:
  "fingerStates hand_open =
     \<lparr>thumb = True, index = True, middle = True, ring = True, pinky = True\<rparr>"
  by (simp add: fingerStates_def isExtended_sq dist_lm_mult hand_open_def pt_def)

lemma fs_phone:
  "fingerStates hand_phone =
     \<lparr>thumb = True, index = False, middle = False, ring = False, pinky = True\<rparr>"
  by (simp add: fingerStates_def isExtended_sq dist_lm_mult hand_phone_def pt_def)

lemma classify_thumb_pinky:
  assumes "21 \<le> length lm"
    and "fingerStates lm = \<lparr>thumb = True, index = False, middle = False, ring = False, pinky = True\<rparr>"
  shows "classify (Some lm) = Some \<lparr>name = ''Y'', confidence = 0.88\<rparr>"
  using assms by (simp add: classify_def Let_def)

lemma classify_thumb_index:
  assumes "21 \<le> length lm"
    and "fingerStates lm = \<lparr>thumb = True, index = True, middle = False, ring = False, pinky = False\<rparr>"
  shows "classify (Some lm) =
           (if angleDeg (lm ! 4) (lm ! 2) (lm ! 5) > 58
            then Some \<lparr>name = ''L'', confidence = 0.90\<rparr>
            else Some \<lparr>name = ''D'',
                       confidence = (if dist_lm (lm ! 4) (lm ! 12) / handScale lm < 0.6
                                     then 0.84 else 0.72)\<rparr>)"
  using assms by (simp add: classify_def Let_def)

lemma classify_all_five:
  assumes "21 \<le> length lm"
    and "fingerStates lm = \<lparr>thumb = True, index = True, middle = True, ring = True, pinky = True\<rparr>"
    and "lm_y (lm ! 8) - lm_y (lm ! 5) < - 0.05"
  shows "classify (Some lm) =
           (if dist_lm (lm ! 8) (lm ! 20) / handScale lm > 1.2
            then Some \<lparr>name = ''STOP'', confidence = 0.85\<rparr>
            else Some \<lparr>name = ''HELLO'', confidence = 0.80\<rparr>)"
  using assms by (simp add: classify_def Let_def)

lemma classify_Some_length: "classify (Some lm) = Some g \<Longrightarrow> 21 \<le> length lm"
  by (simp add: classify_def split: if_splits)

lemma handScale_open: "handScale hand_open = 1"
  by (simp add: handScale_def dist_lm_def hand_open_def pt_def)

lemma classify_hand_open:
  "classify (Some hand_open) = Some \<lparr>name = ''STOP'', confidence = 0.85\<rparr>"
proof -
  have "(1.2::real) * 1.2 < dist_lm (hand_open ! 8) (hand_open ! 20) * dist_lm (hand_open ! 8) (hand_open ! 20)"
    by (simp add: dist_lm_mult hand_open_def pt_def)
  then have "1.2 < dist_lm (hand_open ! 8) (hand_open ! 20)"
    using less_iff_square [of "1.2" "dist_lm (hand_open ! 8) (hand_open ! 20)"] dist_lm_nonneg
    by simp
  moreover have "lm_y (hand_open ! 8) - lm_y (hand_open ! 5) < - 0.05"
    by (simp add: hand_open_def pt_def)
  moreover have "21 \<le> length hand_open" by (simp add: hand_open_def)
  ultimately show ?thesis
    using classify_all_five [OF _ fs_open] by (simp add: handScale_open)
qed

lemma classify_hand_phone:
  "classify (Some hand_phone) = Some \<lparr>name = ''Y'', confidence = 0.88\<rparr>"
  by (rule classify_thumb_pinky [OF _ fs_phone]) (simp add: hand_phone_def)

text \<open>Only the first 21 landmarks of a hand are ever read.\<close>

lemma handScale_take: "21 \<le> length lm \<Longrightarrow> handScale (take 21 lm) = handScale lm"
  by (simp add: handScale_def)

lemma isExtended_take:
  "21 \<le> length lm \<Longrightarrow> tip < 21 \<Longrightarrow> mcp < 21 \<Longrightarrow>
   isExtended (take 21 lm) tip mcp th = isExtended lm tip mcp th"
  by (simp add: isExtended_def handScale_take)

lemma fingerStates_take: "21 \<le> length lm \<Longrightarrow> fingerStates (take 21 lm) = fingerStates lm"
  by (simp add: fingerStates_def isExtended_take)

lemma classify_take: "21 \<le> length lm \<Longrightarrow> classify (Some (take 21 lm)) = classify (Some lm)"
  by (simp add: classify_def fingerStates_take handScale_take thumbUp_def thumbDown_def
      cong: if_cong)

lemma disambiguate_take:
  "21 \<le> length lm \<Longrightarrow> disambiguate c (take 21 lm) sc = disambiguate c lm sc"
  by (simp add: disambiguate_def fingerStates_take cong: if_cong)

lemma resolve_take:
  "21 \<le> length lm \<Longrightarrow> resolve cs (Some (take 21 lm)) = resolve cs (Some lm)"
  by (simp add: resolve_def classify_take handScale_take disambiguate_take
      split: option.splits list.splits)

text \<open>The example hands.\<close>

lemma fs_phone22:
  "fingerStates hand_phone22 =
     \<lparr>thumb = True, index = False, middle = False, ring = False, pinky = True\<rparr>"
  by (simp add: fingerStates_def isExtended_sq dist_lm_mult hand_phone22_def hand_phone_def pt_def)

lemma classify_hand_phone22:
  "classify (Some hand_phone22) = Some \<lparr>name = ''Y'', confidence = 0.88\<rparr>"
  by (rule classify_thumb_pinky [OF _ fs_phone22]) (simp add: hand_phone22_def hand_phone_def)

lemma fs_curl:
  "fingerStates hand_curl =
     \<lparr>thumb = False, index = False, middle = False, ring = False, pinky = False\<rparr>"
  by (simp add: fingerStates_def isExtended_sq dist_lm_mult hand_curl_def pt_def)

lemma classify_hand_curl: "classify (Some hand_curl) = None"
proof -
  have "21 \<le> length hand_curl" "\<not> lm_y (hand_curl ! 4) - lm_y (hand_curl ! 3) < - 0.05"
    by (simp_all add: hand_curl_def pt_def)
  then show ?thesis using fs_curl by (simp add: classify_def Let_def)
qed

lemma fs_hand_angle:
  assumes "0 \<le> t" "t \<le> pi / 2"
  shows "fingerStates (hand_angle t) =
     \<lparr>thumb = True, index = True, middle = False, ring = False, pinky = False\<rparr>"
proof -
  have s: "0 \<le> sin t" using assms by (intro sin_ge_zero) auto
  have c: "0 \<le> cos t" using assms by (intro cos_ge_zero) auto
  have u: "sin t * sin t + cos t * cos t = 1"
    using sin_cos_squared_add [of t] by (simp add: power2_eq_square)
  have "cos t * (cos t * 400) + sin t * (sin t * 400) =
        400 * (sin t * sin t + cos t * cos t)"
    by (simp only: distrib_left mult.assoc mult.commute mult.left_commute add.commute)
  then have e: "cos t * (cos t * 400) + sin t * (sin t * 400) = 400"
    by (simp only: u mult_1_right)
  have "69 < sin t * 240 + (cos t * 320 + (cos t * (cos t * 400) + sin t * (sin t * 400)))"
    unfolding e using s c by linarith
  then have th: "isExtended (hand_angle t) 4 2 1.30"
    by (simp add: isExtended_sq dist_lm_mult hand_angle_def pt_def algebra_simps)
  have rest: "isExtended (hand_angle t) 8 5 1.60" "\<not> isExtended (hand_angle t) 12 9 1.60"
    "\<not> isExtended (hand_angle t) 16 13 1.55" "\<not> isExtended (hand_angle t) 20 17 1.45"
    by (simp_all add: isExtended_sq dist_lm_mult hand_angle_def pt_def)
  show ?thesis using th rest by (simp add: fingerStates_def)
qed

lemma angleDeg_hand_angle:
  assumes "0 \<le> t" "t \<le> pi"
  shows "angleDeg (hand_angle t ! 4) (hand_angle t ! 2) (hand_angle t ! 5) = t * 180 / pi"
proof -
  have q: "sqrt ((3 / 5)\<^sup>2) = (3 / 5 :: real)" by simp
  have m: "sqrt ((sin t)\<^sup>2 + (cos t)\<^sup>2) * sqrt ((3 / 5)\<^sup>2) = (3 / 5 :: real)"
    unfolding q by simp
  have b: "min 1 (max (- 1) (cos t)) = cos t"
    using cos_le_one [of t] cos_ge_minus_one [of t] by simp
  have "angleDeg (hand_angle t ! 4) (hand_angle t ! 2) (hand_angle t ! 5) =
        arccos (min 1 (max (- 1) (cos t))) * (180 / pi)"
    using m by (simp add: angleDeg_def hand_angle_def pt_def Let_def)
  also have "\<dots> = t * 180 / pi"
    unfolding b using assms by (simp add: arccos_cos)
  finally show ?thesis .
qed

lemma handScale_hand_angle: "handScale (hand_angle t) = 1"
  by (simp add: handScale_def dist_lm_def hand_angle_def pt_def)

lemma classify_hand_angle70:
  "classify (Some hand_angle70) = Some \<lparr>name = ''L'', confidence = 0.90\<rparr>"
proof -
  have r: "(0::real) \<le> 70 * pi / 180" "70 * pi / 180 \<le> pi / 2" "70 * pi / 180 \<le> pi"
    using pi_gt_zero by simp_all
  have a: "angleDeg (hand_angle70 ! 4) (hand_angle70 ! 2) (hand_angle70 ! 5) = 70"
    unfolding hand_angle70_def using angleDeg_hand_angle [OF r(1) r(3)] by simp
  have l: "21 \<le> length hand_angle70" by (simp add: hand_angle70_def hand_angle_def)
  show ?thesis
    using classify_thumb_index [OF l] fs_hand_angle [OF r(1) r(2)] a
    by (simp add: hand_angle70_def)
qed

lemma angleDeg_hand_angle40:
  "angleDeg (hand_angle40 ! 4) (hand_angle40 ! 2) (hand_angle40 ! 5) = 40"
proof -
  have r: "(0::real) \<le> 40 * pi / 180" "40 * pi / 180 \<le> pi"
    using pi_gt_zero by simp_all
  show ?thesis unfolding hand_angle40_def using angleDeg_hand_angle [OF r] by simp
qed

lemma fs_hand_angle40:
  "fingerStates hand_angle40 =
     \<lparr>thumb = True, index = True, middle = False, ring = False, pinky = False\<rparr>"
proof -
  have r: "(0::real) \<le> 40 * pi / 180" "40 * pi / 180 \<le> pi / 2"
    using pi_gt_zero by simp_all
  show ?thesis unfolding hand_angle40_def by (rule fs_hand_angle [OF r])
qed

lemma thumbToMid_hand_angle:
  assumes "0 \<le> t" "t \<le> pi"
  shows "\<not> dist_lm (hand_angle t ! 4) (hand_angle t ! 12) / handScale (hand_angle t) < 0.6"
proof -
  let ?d = "dist_lm (hand_angle t ! 4) (hand_angle t ! 12)"
  have s: "0 \<le> sin t" using assms by (rule sin_ge_zero)
  have c: "cos t \<le> 1" by (rule cos_le_one)
  have u: "sin t * sin t + cos t * cos t = 1"
    using sin_cos_squared_add [of t] by (simp add: power2_eq_square)
  have "?d * ?d = (3 / 10 + sin t) * (3 / 10 + sin t) + (2 / 5 - cos t) * (2 / 5 - cos t)"
    by (simp add: dist_lm_mult hand_angle_def pt_def algebra_simps)
  also have "\<dots> = 1 / 4 + 3 / 5 * sin t - 4 / 5 * cos t + (sin t * sin t + cos t * cos t)"
    by (simp only: algebra_simps)
  also have "\<dots> = 5 / 4 + 3 / 5 * sin t - 4 / 5 * cos t" unfolding u by simp
  finally have e: "?d * ?d = 5 / 4 + 3 / 5 * sin t - 4 / 5 * cos t" .
  have "(9 / 25 :: real) \<le> 5 / 4 + 3 / 5 * sin t - 4 / 5 * cos t"
    using s c by linarith
  then have "0.6 * 0.6 \<le> ?d * ?d" unfolding e by simp
  then have "0.6 \<le> ?d"
    using less_iff_square [of ?d "0.6"] dist_lm_nonneg [of "hand_angle t ! 4" "hand_angle t ! 12"]
    by (simp add: not_less [symmetric])
  then show ?thesis by (simp add: handScale_hand_angle)
qed

lemma classify_hand_angle40:
  "classify (Some hand_angle40) = Some \<lparr>name = ''D'', confidence = 0.72\<rparr>"
proof -
  have r: "(0::real) \<le> 40 * pi / 180" "40 * pi / 180 \<le> pi"
    using pi_gt_zero by simp_all
  have l: "21 \<le> length hand_angle40" by (simp add: hand_angle40_def hand_angle_def)
  have d: "\<not> dist_lm (hand_angle40 ! 4) (hand_angle40 ! 12) / handScale hand_angle40 < 0.6"
    unfolding hand_angle40_def by (rule thumbToMid_hand_angle [OF r])
  show ?thesis
    using classify_thumb_index [OF l fs_hand_angle40] angleDeg_hand_angle40 d by simp
qed

section \<open>Malformed hands\<close>

text \<open>
  C4 (as the code has it): for a hand that is absent or has fewer than 21 landmarks,
  \<open>classify\<close> returns none and \<open>resolve\<close> returns none whatever the candidates are. A
  hand of more than 21 landmarks is not rejected: it is handled exactly as its first 21
  landmarks.
\<close>

theorem classify_resolve_short_hand:
  "(hand = None \<or> (\<exists>lm. hand = Some lm \<and> length lm < 21) \<longrightarrow>
      classify hand = None \<and> resolve candidates hand = None) \<and>
   (\<forall>lm. 21 \<le> length lm \<longrightarrow>
      classify (Some lm) = classify (Some (take 21 lm)) \<and>
      resolve candidates (Some lm) = resolve candidates (Some (take 21 lm)))"
proof (intro conjI impI allI)
  assume "hand = None \<or> (\<exists>lm. hand = Some lm \<and> length lm < 21)"
  then show "classify hand = None"
    by (auto simp: classify_def)
next
  assume "hand = None \<or> (\<exists>lm. hand = Some lm \<and> length lm < 21)"
  then show "resolve candidates hand = None"
    by (auto simp: resolve_def split: option.splits list.splits)
next
  fix lm :: "landmark list" assume "21 \<le> length lm"
  then show "classify (Some lm) = classify (Some (take 21 lm))"
    by (simp add: classify_take)
next
  fix lm :: "landmark list" assume "21 \<le> length lm"
  then show "resolve candidates (Some lm) = resolve candidates (Some (take 21 lm))"
    by (simp add: resolve_take)
qed

theorem classify_resolve_short_hand_witness:
  "length (take 20 hand_phone) < 21 \<and>
   classify (Some (take 20 hand_phone)) = None \<and>
   resolve (Some [\<lparr>name = ''A'', score = 7.2\<rparr>]) (Some (take 20 hand_phone)) = None \<and>
   classify None = None \<and>
   resolve (Some [\<lparr>name = ''A'', score = 7.2\<rparr>]) None = None \<and>
   21 \<le> length hand_phone22 \<and>
   classify (Some hand_phone22) = classify (Some (take 21 hand_phone22))"
proof -
  let ?cs = "Some [\<lparr>name = ''A'', score = 7.2\<rparr>]"
  have s: "length (take 20 hand_phone) < 21" by simp
  have l: "21 \<le> length hand_phone22" by (simp add: hand_phone22_def hand_phone_def)
  from classify_resolve_short_hand [of "Some (take 20 hand_phone)" ?cs] s
  have a: "classify (Some (take 20 hand_phone)) = None \<and>
           resolve ?cs (Some (take 20 hand_phone)) = None"
    by blast
  from classify_resolve_short_hand [of None ?cs]
  have b: "classify None = None \<and> resolve ?cs None = None"
    by blast
  from classify_resolve_short_hand [of None ?cs] l
  have c: "classify (Some hand_phone22) = classify (Some (take 21 hand_phone22))"
    by blast
  show ?thesis using s l a b c by blast
qed

text \<open>
  The specification also rejects hands of more than 21 landmarks; the guard is
  \<^verbatim>\<open>lm.length < 21\<close>, and a hand of 22 landmarks is classified and resolved.
\<close>

theorem classify_long_hand_counterexample:
  "length hand_phone22 = 22 \<and>
   classify (Some hand_phone22) = Some \<lparr>name = ''Y'', confidence = 0.88\<rparr> \<and>
   resolve (Some [\<lparr>name = ''A'', score = 7.2\<rparr>]) (Some hand_phone22) =
     Some \<lparr>name = ''Y'', score = 8.8\<rparr>"
proof -
  have "length hand_phone22 = 22" by (simp add: hand_phone22_def hand_phone_def)
  moreover have "resolve (Some [\<lparr>name = ''A'', score = 7.2\<rparr>]) (Some hand_phone22) =
     Some \<lparr>name = ''Y'', score = 8.8\<rparr>"
    using calculation classify_hand_phone22 by (simp add: resolve_def Let_def)
  ultimately show ?thesis using classify_hand_phone22 by simp
qed

section \<open>Geometric analyser: thumb and index, thumb and pinky\<close>

text \<open>
  C5 (as the code has it): for a 21-landmark hand with thumb and index extended and
  middle, ring and pinky not, an angle of 70 degrees at the thumb base between thumb tip
  and index base gives \<open>L\<close> with confidence 0.90. At 40 degrees the \<open>L\<close> block falls
  through and the \<open>D\<close> block, which does not test the thumb, returns \<open>D\<close> with
  confidence 0.84 when the thumb tip is closer than 0.6 hand scales to the middle
  fingertip and 0.72 otherwise.
\<close>

theorem classify_thumb_index_angle:
  assumes "length lm = 21"
    and "fingerStates lm =
           \<lparr>thumb = True, index = True, middle = False, ring = False, pinky = False\<rparr>"
  shows "(angleDeg (lm ! 4) (lm ! 2) (lm ! 5) = 70 \<longrightarrow>
            classify (Some lm) = Some \<lparr>name = ''L'', confidence = 0.90\<rparr>) \<and>
         (angleDeg (lm ! 4) (lm ! 2) (lm ! 5) = 40 \<longrightarrow>
            classify (Some lm) =
              Some \<lparr>name = ''D'',
                    confidence = (if dist_lm (lm ! 4) (lm ! 12) / handScale lm < 0.6
                                  then 0.84 else 0.72)\<rparr>)"
proof -
  have l: "21 \<le> length lm" using assms(1) by simp
  show ?thesis using classify_thumb_index [OF l assms(2)] by simp
qed

theorem classify_thumb_index_angle_witness:
  "length hand_angle70 = 21 \<and>
   fingerStates hand_angle70 =
     \<lparr>thumb = True, index = True, middle = False, ring = False, pinky = False\<rparr> \<and>
   angleDeg (hand_angle70 ! 4) (hand_angle70 ! 2) (hand_angle70 ! 5) = 70 \<and>
   classify (Some hand_angle70) = Some \<lparr>name = ''L'', confidence = 0.90\<rparr> \<and>
   length hand_angle40 = 21 \<and>
   fingerStates hand_angle40 =
     \<lparr>thumb = True, index = True, middle = False, ring = False, pinky = False\<rparr> \<and>
   angleDeg (hand_angle40 ! 4) (hand_angle40 ! 2) (hand_angle40 ! 5) = 40 \<and>
   classify (Some hand_angle40) =
     Some \<lparr>name = ''D'',
           confidence = (if dist_lm (hand_angle40 ! 4) (hand_angle40 ! 12) /
                            handScale hand_angle40 < 0.6 then 0.84 else 0.72)\<rparr>"
proof -
  have l7: "length hand_angle70 = 21" by (simp add: hand_angle70_def hand_angle_def)
  have l4: "length hand_angle40 = 21" by (simp add: hand_angle40_def hand_angle_def)
  have r: "(0::real) \<le> 70 * pi / 180" "70 * pi / 180 \<le> pi / 2" "70 * pi / 180 \<le> pi"
    using pi_gt_zero by simp_all
  have f7: "fingerStates hand_angle70 =
     \<lparr>thumb = True, index = True, middle = False, ring = False, pinky = False\<rparr>"
    unfolding hand_angle70_def by (rule fs_hand_angle [OF r(1) r(2)])
  have a7: "angleDeg (hand_angle70 ! 4) (hand_angle70 ! 2) (hand_angle70 ! 5) = 70"
    unfolding hand_angle70_def using angleDeg_hand_angle [OF r(1) r(3)] by simp
  show ?thesis
    using classify_thumb_index_angle [OF l7 f7] classify_thumb_index_angle [OF l4 fs_hand_angle40]
      l7 l4 f7 a7 fs_hand_angle40 angleDeg_hand_angle40
    by simp
qed

text \<open>
  The specification has \<open>classify\<close> return none at 40 degrees; on the hand below it
  returns \<open>D\<close>.
\<close>

theorem classify_angle40_counterexample:
  "length hand_angle40 = 21 \<and>
   fingerStates hand_angle40 =
     \<lparr>thumb = True, index = True, middle = False, ring = False, pinky = False\<rparr> \<and>
   angleDeg (hand_angle40 ! 4) (hand_angle40 ! 2) (hand_angle40 ! 5) = 40 \<and>
   classify (Some hand_angle40) = Some \<lparr>name = ''D'', confidence = 0.72\<rparr> \<and>
   classify (Some hand_angle40) \<noteq> None"
  using fs_hand_angle40 angleDeg_hand_angle40 classify_hand_angle40
  by (simp add: hand_angle40_def hand_angle_def)

text \<open>
  C7: a hand with only thumb and pinky extended is to be classified \<open>CALL ME\<close>
  (confidence 0.85) when its pinky vector is predominantly horizontal and \<open>Y\<close>
  (confidence 0.88) otherwise. In the code the \<open>Y\<close> block comes first and returns for
  every such hand, so the \<open>CALL ME\<close> block is never reached: the hand below has a
  horizontal pinky vector and is classified \<open>Y\<close> with confidence 0.88.
\<close>

theorem classify_thumb_pinky_is_Y:
  "\<bar>lm_x (hand_phone ! 20) - lm_x (hand_phone ! 17)\<bar> >
     \<bar>lm_y (hand_phone ! 20) - lm_y (hand_phone ! 17)\<bar> * 1.4 \<and>
   fingerStates hand_phone =
     \<lparr>thumb = True, index = False, middle = False, ring = False, pinky = True\<rparr> \<and>
   classify (Some hand_phone) = Some \<lparr>name = ''Y'', confidence = 0.88\<rparr>"
proof -
  have "\<bar>lm_x (hand_phone ! 20) - lm_x (hand_phone ! 17)\<bar> >
     \<bar>lm_y (hand_phone ! 20) - lm_y (hand_phone ! 17)\<bar> * 1.4"
    by (simp add: hand_phone_def pt_def)
  then show ?thesis using fs_phone classify_hand_phone by simp
qed

section \<open>Conflict resolver: agreement boost and geometric override\<close>

text \<open>
  C1: whenever the geometric analyser returns the name of the top candidate with a
  confidence above 0.80, \<open>resolve\<close> returns that name with the top score multiplied by
  1.12 and capped at 10; with geometric confidence 0.85 and bank score 8.0 the returned
  score is 8.96. (An opinion is only ever returned for a hand of at least 21 landmarks.)
\<close>

theorem resolve_agreement_boost:
  assumes "classify (Some lm) = Some g"
    and "name g = name top_cand"
    and "confidence g > 0.80"
  shows "resolve (Some (top_cand # others)) (Some lm) =
           Some \<lparr>name = name top_cand, score = min 10 (score top_cand * 1.12)\<rparr> \<and>
         (confidence g = 0.85 \<and> score top_cand = 8.0 \<longrightarrow>
            resolve (Some (top_cand # others)) (Some lm) =
              Some \<lparr>name = name top_cand, score = 8.96\<rparr>)"
proof -
  have len: "\<not> length lm < 21" using classify_Some_length [OF assms(1)] by simp
  have r: "resolve (Some (top_cand # others)) (Some lm) =
           Some \<lparr>name = name top_cand, score = min 10 (score top_cand * 1.12)\<rparr>"
    using assms len by (simp add: resolve_def Let_def)
  show ?thesis unfolding r by simp
qed

theorem resolve_agreement_boost_witness:
  "classify (Some hand_open) = Some \<lparr>name = ''STOP'', confidence = 0.85\<rparr> \<and>
   resolve (Some [\<lparr>name = ''STOP'', score = 8.0\<rparr>, \<lparr>name = ''HELLO'', score = 7.5\<rparr>])
     (Some hand_open) = Some \<lparr>name = ''STOP'', score = 8.96\<rparr>"
  using resolve_agreement_boost [OF classify_hand_open,
      of "\<lparr>name = ''STOP'', score = 8.0\<rparr>" "[\<lparr>name = ''HELLO'', score = 7.5\<rparr>]"]
    classify_hand_open
  by simp

text \<open>
  C10: whenever the geometric analyser returns an opinion with confidence above 0.87
  whose name differs from the top candidate's, \<open>resolve\<close> returns the geometric name
  with score ten times the geometric confidence, whatever the top candidate's score is.
\<close>

theorem resolve_geometric_override:
  assumes "classify (Some lm) = Some g"
    and "confidence g > 0.87"
    and "name g \<noteq> name top_cand"
  shows "resolve (Some (top_cand # others)) (Some lm) =
           Some \<lparr>name = name g, score = confidence g * 10\<rparr> \<and>
         resolve (Some (top_cand\<lparr>score := v\<rparr> # others)) (Some lm) =
           resolve (Some (top_cand # others)) (Some lm)"
proof -
  have len: "\<not> length lm < 21" using classify_Some_length [OF assms(1)] by simp
  show ?thesis using assms len by (simp add: resolve_def Let_def)
qed

theorem resolve_geometric_override_witness:
  "classify (Some hand_phone) = Some \<lparr>name = ''Y'', confidence = 0.88\<rparr> \<and>
   resolve (Some [\<lparr>name = ''A'', score = 7.2\<rparr>]) (Some hand_phone) =
     Some \<lparr>name = ''Y'', score = 8.8\<rparr> \<and>
   resolve (Some [\<lparr>name = ''A'', score = 9.9\<rparr>]) (Some hand_phone) =
     Some \<lparr>name = ''Y'', score = 8.8\<rparr>"
  using resolve_geometric_override [OF classify_hand_phone,
      of "\<lparr>name = ''A'', score = 7.2\<rparr>" "[]" "9.9"]
    classify_hand_phone
  by simp

text \<open>
  C6: when the top candidate is one of \<open>C\<close>, \<open>O\<close>, \<open>EAT\<close>, \<open>HOT\<close>, \<open>DRINK\<close> and
  neither the agreement boost nor the geometric override applies, \<open>resolve\<close> returns one
  of \<open>O\<close>, \<open>EAT\<close>, \<open>HOT\<close>, \<open>C\<close> (chosen in this order by the pinch test and the
  vertical lean) with the top candidate's score; never \<open>DRINK\<close>.
\<close>

theorem resolve_cluster_names:
  assumes "21 \<le> length lm"
    and "name top_cand \<in> {''C'', ''O'', ''EAT'', ''HOT'', ''DRINK''}"
    and "\<forall>g. classify (Some lm) = Some g \<longrightarrow>
           \<not> (name g = name top_cand \<and> confidence g > 0.80) \<and>
           \<not> (confidence g > 0.87 \<and> name g \<noteq> name top_cand)"
  shows "\<exists>r. resolve (Some (top_cand # others)) (Some lm) = Some r \<and>
             name r \<in> {''O'', ''EAT'', ''HOT'', ''C''} \<and>
             name r \<noteq> ''DRINK'' \<and>
             score r = score top_cand \<and>
             name r =
               (if dist_lm (lm ! 8) (lm ! 4) / handScale lm < 0.28 then ''O''
                else if lm_y (lm ! 12) - lm_y (lm ! 9) < - 0.06 then ''EAT''
                else if lm_y (lm ! 12) - lm_y (lm ! 9) > 0.08 then ''HOT''
                else ''C'')"
proof -
  have d: "disambiguate top_cand lm (handScale lm) =
           \<lparr>name = (if dist_lm (lm ! 8) (lm ! 4) / handScale lm < 0.28 then ''O''
                else if lm_y (lm ! 12) - lm_y (lm ! 9) < - 0.06 then ''EAT''
                else if lm_y (lm ! 12) - lm_y (lm ! 9) > 0.08 then ''HOT''
                else ''C''), score = score top_cand\<rparr>"
    using assms(2) by (elim insertE emptyE) (simp_all add: disambiguate_def Let_def)
  have r: "resolve (Some (top_cand # others)) (Some lm) = Some (disambiguate top_cand lm (handScale lm))"
  proof (cases "classify (Some lm)")
    case None
    then show ?thesis using assms(1) by (simp add: resolve_def Let_def)
  next
    case (Some g)
    then show ?thesis using assms(1) assms(3) [rule_format, OF Some]
      by (auto simp: resolve_def Let_def)
  qed
  show ?thesis unfolding r d by simp
qed

theorem resolve_cluster_names_witness:
  "21 \<le> length hand_curl \<and>
   classify (Some hand_curl) = None \<and>
   (\<exists>r. resolve (Some [\<lparr>name = ''DRINK'', score = 7.5\<rparr>, \<lparr>name = ''C'', score = 7.1\<rparr>])
          (Some hand_curl) = Some r \<and> name r = ''HOT'' \<and> score r = 7.5)"
proof -
  have l: "21 \<le> length hand_curl" by (simp add: hand_curl_def)
  have n: "name \<lparr>name = ''DRINK'', score = 7.5\<rparr> \<in> {''C'', ''O'', ''EAT'', ''HOT'', ''DRINK''}"
    by simp
  have g: "\<forall>g. classify (Some hand_curl) = Some g \<longrightarrow>
           \<not> (name g = name \<lparr>name = ''DRINK'', score = 7.5\<rparr> \<and> confidence g > 0.80) \<and>
           \<not> (confidence g > 0.87 \<and> name g \<noteq> name \<lparr>name = ''DRINK'', score = 7.5\<rparr>)"
    by (simp add: classify_hand_curl)
  have h: "handScale hand_curl = 1"
    by (simp add: handScale_def dist_lm_def hand_curl_def pt_def)
  have "0.28 * 0.28 \<le> dist_lm (hand_curl ! 8) (hand_curl ! 4) * dist_lm (hand_curl ! 8) (hand_curl ! 4)"
    by (simp add: dist_lm_mult hand_curl_def pt_def)
  then have "0.28 \<le> dist_lm (hand_curl ! 8) (hand_curl ! 4)"
    using less_iff_square [of "dist_lm (hand_curl ! 8) (hand_curl ! 4)" "0.28"]
      dist_lm_nonneg [of "hand_curl ! 8" "hand_curl ! 4"]
    by (simp add: not_less [symmetric])
  then have o: "\<not> dist_lm (hand_curl ! 8) (hand_curl ! 4) / handScale hand_curl < 0.28"
    by (simp add: h)
  have m: "lm_y (hand_curl ! 12) - lm_y (hand_curl ! 9) = 0.2"
    by (simp add: hand_curl_def pt_def)
  from resolve_cluster_names [OF l n g, of "[\<lparr>name = ''C'', score = 7.1\<rparr>]"]
  show ?thesis using l classify_hand_curl o m by auto
qed

section \<open>Double-precision rounding\<close>

text \<open>
  The facts used below: rounding moves a real by at most half a quantum, it is
  idempotent, it never crosses a value that it leaves fixed, and a real that lies within
  half a quantum of a multiple of the quantum, and is not a tie, rounds to that multiple.
\<close>

lemma rhe_bounds: "\<lfloor>y\<rfloor> \<le> round_half_even y \<and> round_half_even y \<le> \<lceil>y\<rceil>"
  unfolding round_half_even_def Let_def by (auto simp: ceiling_altdef)

lemma rhe_ge: "of_int k \<le> y \<Longrightarrow> k \<le> round_half_even y"
  using rhe_bounds [of y] by (meson le_floor_iff order_trans)

lemma rhe_le: "y \<le> of_int k \<Longrightarrow> round_half_even y \<le> k"
  using rhe_bounds [of y] by (meson ceiling_le_iff order_trans)

lemma rhe_error: "\<bar>of_int (round_half_even y) - y\<bar> \<le> 1 / 2"
  unfolding round_half_even_def Let_def by (auto split: if_splits)

lemma rhe_of_int [simp]: "round_half_even (of_int k) = k"
  by (simp add: round_half_even_def)

lemma rhe_near:
  assumes "\<bar>y - of_int m\<bar> < 1 / 2"
  shows "round_half_even y = m"
proof (cases "of_int m \<le> y")
  case True
  then have f: "\<lfloor>y\<rfloor> = m" using assms by (intro floor_unique) auto
  show ?thesis using assms True by (simp add: round_half_even_def f)
next
  case False
  then have f: "\<lfloor>y\<rfloor> = m - 1" using assms by (intro floor_unique) auto
  show ?thesis using assms False by (simp add: round_half_even_def f)
qed

lemma bl_upper:
  fixes X :: real
  assumes "0 \<le> X"
  shows "X < 2 ^ floorlog 2 (nat \<lfloor>X\<rfloor>)"
proof (cases "nat \<lfloor>X\<rfloor> = 0")
  case True
  then have "\<lfloor>X\<rfloor> \<le> 0" by simp
  then have "X < 1" by (simp only: floor_le_iff)
  then show ?thesis using True by (simp add: floorlog_def)
next
  case False
  let ?n = "floorlog 2 (nat \<lfloor>X\<rfloor>)"
  have "nat \<lfloor>X\<rfloor> < 2 ^ ?n"
    using False floorlog_bounds [of "nat \<lfloor>X\<rfloor>" 2] by simp
  then have "\<lfloor>X\<rfloor> < int (2 ^ ?n)" by (simp only: nat_less_iff)
  then have "\<lfloor>X\<rfloor> < 2 ^ ?n" by simp
  then show ?thesis by (simp add: floor_less_iff)
qed

lemma bl_lower:
  fixes X :: real
  assumes "0 < floorlog 2 (nat \<lfloor>X\<rfloor>)"
  shows "2 ^ (floorlog 2 (nat \<lfloor>X\<rfloor>) - 1) \<le> X"
proof -
  have pos: "0 < nat \<lfloor>X\<rfloor>" using assms by (auto simp: floorlog_def split: if_splits)
  then have "2 ^ (floorlog 2 (nat \<lfloor>X\<rfloor>) - 1) \<le> nat \<lfloor>X\<rfloor>"
    using floorlog_bounds [of "nat \<lfloor>X\<rfloor>" 2] by simp
  then have "real (2 ^ (floorlog 2 (nat \<lfloor>X\<rfloor>) - 1)) \<le> real (nat \<lfloor>X\<rfloor>)"
    by (simp only: of_nat_le_iff)
  then have "(2::real) ^ (floorlog 2 (nat \<lfloor>X\<rfloor>) - 1) \<le> real (nat \<lfloor>X\<rfloor>)"
    by simp
  also have "\<dots> \<le> X" using pos by simp
  finally show ?thesis .
qed

lemma bl_mono:
  fixes X Y :: real
  shows "X \<le> Y \<Longrightarrow> floorlog 2 (nat \<lfloor>X\<rfloor>) \<le> floorlog 2 (nat \<lfloor>Y\<rfloor>)"
  by (intro floorlog_mono nat_mono floor_mono)

lemma bl_eq:
  fixes X :: real
  assumes "2 ^ (n - 1) \<le> X" "X < 2 ^ n" "0 < n"
  shows "floorlog 2 (nat \<lfloor>X\<rfloor>) = n"
proof (rule antisym)
  have "\<lfloor>X\<rfloor> < 2 ^ n" using assms(2) by (simp add: floor_less_iff)
  then have "nat \<lfloor>X\<rfloor> < 2 ^ n" by (simp add: nat_less_iff)
  then show "floorlog 2 (nat \<lfloor>X\<rfloor>) \<le> n" by (intro floorlog_leI) auto
next
  have "(2::int) ^ (n - 1) \<le> \<lfloor>X\<rfloor>" using assms(1) by (simp add: le_floor_iff)
  then have "2 ^ (n - 1) \<le> nat \<lfloor>X\<rfloor>" by (simp add: le_nat_iff)
  then show "n \<le> floorlog 2 (nat \<lfloor>X\<rfloor>)" by (intro floorlog_geI) auto
qed

lemma round_sig_nonneg: "0 \<le> X \<Longrightarrow> 0 \<le> round_sig p X"
  unfolding round_sig_def Let_def
  using rhe_ge [of 0 "X / 2 ^ (floorlog 2 (nat \<lfloor>X\<rfloor>) - p)"] by simp

lemma round_sig_zero [simp]: "round_sig p 0 = 0"
  by (simp add: round_sig_def round_half_even_def)

text \<open>Above \<open>p\<close> bits the quantum is \<open>2 ^ j\<close> for a window \<open>[2 ^ (p - 1 + j), 2 ^ (p + j))\<close>.\<close>

lemma round_sig_window:
  fixes X :: real
  assumes "2 ^ (p - 1 + j) \<le> X" "X < 2 ^ (p + j)" "0 < p"
  shows "round_sig p X = of_int (round_half_even (X / 2 ^ j)) * 2 ^ j"
proof -
  have "2 ^ (p + j - 1) \<le> X" using assms(1,3) by (simp add: Nat.add_diff_assoc2 Suc_leI)
  then have "floorlog 2 (nat \<lfloor>X\<rfloor>) = p + j"
    using assms by (intro bl_eq) auto
  then show ?thesis by (simp add: round_sig_def Let_def)
qed

lemma round_sig_small:
  fixes X :: real
  assumes "0 \<le> X" "X < 2 ^ p"
  shows "round_sig p X = of_int (round_half_even X)"
proof -
  have "\<lfloor>X\<rfloor> < 2 ^ p" using assms(2) by (simp add: floor_less_iff)
  then have "nat \<lfloor>X\<rfloor> < 2 ^ p" by (simp add: nat_less_iff)
  then have "floorlog 2 (nat \<lfloor>X\<rfloor>) \<le> p" by (intro floorlog_leI) auto
  then show ?thesis by (simp add: round_sig_def Let_def)
qed

text \<open>Every nonnegative real is small or lies in exactly one window.\<close>

lemma window_cases:
  fixes X :: real
  assumes "0 \<le> X" "0 < p"
  obtains (small) "X < 2 ^ p"
  | (window) j where "2 ^ (p + j) \<le> X" "X < 2 ^ (p + Suc j)"
proof (cases "X < 2 ^ p")
  case True
  then show ?thesis by (rule small)
next
  case False
  let ?n = "floorlog 2 (nat \<lfloor>X\<rfloor>)"
  have up: "X < 2 ^ ?n" using assms(1) by (rule bl_upper)
  have "p < ?n"
  proof (rule ccontr)
    assume "\<not> p < ?n"
    then have "(2::real) ^ ?n \<le> 2 ^ p" by (intro power_increasing) auto
    then show False using up False by linarith
  qed
  define j where "j = ?n - Suc p"
  have j: "?n = p + Suc j" using \<open>p < ?n\<close> by (simp add: j_def)
  have "0 < ?n" using \<open>p < ?n\<close> by linarith
  then have "2 ^ (?n - 1) \<le> X" by (rule bl_lower)
  then have lo: "2 ^ (p + j) \<le> X" unfolding j by simp
  have hi: "X < 2 ^ (p + Suc j)" using up unfolding j .
  show ?thesis using lo hi by (rule window)
qed

lemma pow_split: "(2::real) ^ (p + Suc j) = 2 ^ p * 2 ^ Suc j"
  by (simp add: power_add)

lemma pow_split_pred: "0 < p \<Longrightarrow> (2::real) ^ (p + j) = 2 ^ (p - 1) * 2 ^ Suc j"
  by (cases p) (simp_all add: power_add)

lemma round_sig_window_Suc:
  fixes X :: real
  assumes "2 ^ (p + j) \<le> X" "X < 2 ^ (p + Suc j)" "0 < p"
  shows "round_sig p X = of_int (round_half_even (X / 2 ^ Suc j)) * 2 ^ Suc j"
proof -
  have "p - 1 + Suc j = p + j" using assms(3) by simp
  then show ?thesis using round_sig_window [of p "Suc j" X] assms by simp
qed

lemma window_low:
  fixes X :: real
  assumes "2 ^ (p + j) \<le> X" "X < 2 ^ (p + Suc j)" "0 < p"
  shows "2 ^ (p + j) \<le> round_sig p X"
proof -
  have "(2::real) ^ (p - 1) * 2 ^ Suc j \<le> X"
    using assms(1) unfolding pow_split_pred [OF assms(3)] .
  then have "(2::real) ^ (p - 1) \<le> X / 2 ^ Suc j"
    by (simp only: pos_le_divide_eq zero_less_power zero_less_numeral)
  then have "of_int (2 ^ (p - 1)) \<le> X / 2 ^ Suc j" by simp
  then have "2 ^ (p - 1) \<le> round_half_even (X / 2 ^ Suc j)" by (rule rhe_ge)
  then have "(2::real) ^ (p - 1) \<le> of_int (round_half_even (X / 2 ^ Suc j))"
    by (metis of_int_le_iff of_int_numeral of_int_power)
  then have "(2::real) ^ (p - 1) * 2 ^ Suc j \<le> of_int (round_half_even (X / 2 ^ Suc j)) * 2 ^ Suc j"
    by (intro mult_right_mono) auto
  then show ?thesis
    unfolding round_sig_window_Suc [OF assms] pow_split_pred [OF assms(3)] .
qed

lemma window_high:
  fixes X :: real
  assumes "2 ^ (p + j) \<le> X" "X < 2 ^ (p + Suc j)" "0 < p"
  shows "round_sig p X \<le> 2 ^ (p + Suc j)"
proof -
  have "X \<le> (2::real) ^ p * 2 ^ Suc j"
    using assms(2) unfolding pow_split by (rule less_imp_le)
  then have "X / 2 ^ Suc j \<le> (2::real) ^ p"
    by (simp only: pos_divide_le_eq zero_less_power zero_less_numeral)
  then have "X / 2 ^ Suc j \<le> of_int (2 ^ p)" by simp
  then have "round_half_even (X / 2 ^ Suc j) \<le> 2 ^ p" by (rule rhe_le)
  then have "of_int (round_half_even (X / 2 ^ Suc j)) \<le> (2::real) ^ p"
    by (metis of_int_le_iff of_int_numeral of_int_power)
  then have "of_int (round_half_even (X / 2 ^ Suc j)) * 2 ^ Suc j \<le> (2::real) ^ p * 2 ^ Suc j"
    by (intro mult_right_mono) auto
  then show ?thesis
    unfolding round_sig_window_Suc [OF assms] pow_split .
qed

lemma small_high:
  fixes X :: real
  assumes "0 \<le> X" "X < 2 ^ p"
  shows "round_sig p X \<le> 2 ^ p"
proof -
  have "X \<le> of_int (2 ^ p)" using assms(2) by simp
  then have "round_half_even X \<le> 2 ^ p" by (rule rhe_le)
  then have "of_int (round_half_even X) \<le> (2::real) ^ p"
    by (metis of_int_le_iff of_int_numeral of_int_power)
  then show ?thesis unfolding round_sig_small [OF assms] .
qed

text \<open>Rounding is monotone against its fixed points.\<close>

lemma window_fixed_le:
  fixes X D :: real
  assumes X: "2 ^ (p + j) \<le> X" "X < 2 ^ (p + Suc j)" "0 < p"
    and D: "2 ^ (p + j) \<le> D" "D < 2 ^ (p + Suc j)" "round_sig p D = D"
  shows "D \<le> X \<Longrightarrow> D \<le> round_sig p X" and "X \<le> D \<Longrightarrow> round_sig p X \<le> D"
proof -
  let ?q = "(2::real) ^ Suc j"
  have qpos: "0 < ?q" by simp
  define k where "k = round_half_even (D / ?q)"
  have Dk: "D = of_int k * ?q"
    using round_sig_window_Suc [OF D(1,2) X(3)] D(3) unfolding k_def by simp
  have Dq: "D / ?q = of_int k"
    unfolding Dk by simp
  have RX: "round_sig p X = of_int (round_half_even (X / ?q)) * ?q"
    by (rule round_sig_window_Suc [OF X])
  {
    assume "D \<le> X"
    then have "D / ?q \<le> X / ?q" using qpos by (intro divide_right_mono) auto
    then have "of_int k \<le> X / ?q" unfolding Dq .
    then have "k \<le> round_half_even (X / ?q)" by (rule rhe_ge)
    then have "of_int k * ?q \<le> of_int (round_half_even (X / ?q)) * ?q"
      by (intro mult_right_mono) auto
    then show "D \<le> round_sig p X" unfolding RX Dk .
  }
  {
    assume "X \<le> D"
    then have "X / ?q \<le> D / ?q" using qpos by (intro divide_right_mono) auto
    then have "X / ?q \<le> of_int k" unfolding Dq .
    then have "round_half_even (X / ?q) \<le> k" by (rule rhe_le)
    then have "of_int (round_half_even (X / ?q)) * ?q \<le> of_int k * ?q"
      by (intro mult_right_mono) auto
    then show "round_sig p X \<le> D" unfolding RX Dk .
  }
qed

lemma small_fixed_le:
  fixes X D :: real
  assumes X: "0 \<le> X" "X < 2 ^ p"
    and D: "0 \<le> D" "D < 2 ^ p" "round_sig p D = D"
  shows "D \<le> X \<Longrightarrow> D \<le> round_sig p X" and "X \<le> D \<Longrightarrow> round_sig p X \<le> D"
proof -
  define k where "k = round_half_even D"
  have Dk: "D = of_int k" using round_sig_small [OF D(1,2)] D(3) unfolding k_def by simp
  have RX: "round_sig p X = of_int (round_half_even X)" by (rule round_sig_small [OF X])
  {
    assume "D \<le> X"
    then have "of_int k \<le> X" unfolding Dk .
    then have "k \<le> round_half_even X" by (rule rhe_ge)
    then show "D \<le> round_sig p X" unfolding RX Dk by simp
  }
  {
    assume "X \<le> D"
    then have "X \<le> of_int k" unfolding Dk .
    then have "round_half_even X \<le> k" by (rule rhe_le)
    then show "round_sig p X \<le> D" unfolding RX Dk by simp
  }
qed

lemma rhe_pow2 [simp]: "round_half_even (2 ^ n) = 2 ^ n"
  using rhe_of_int [of "2 ^ n"] by simp

lemma scaled_error:
  fixes k q X :: real
  assumes "0 < q" "\<bar>k - X / q\<bar> \<le> 1 / 2"
  shows "\<bar>k * q - X\<bar> \<le> 1 / 2 * q"
proof -
  have "k * q - X = (k - X / q) * q" using assms(1) by (simp add: field_simps)
  then have "\<bar>k * q - X\<bar> = \<bar>k - X / q\<bar> * q"
    using assms(1) by (simp add: abs_mult)
  also have "\<dots> \<le> 1 / 2 * q" using assms by (intro mult_right_mono) auto
  finally show ?thesis .
qed

lemma round_sig_fixed_ge:
  fixes X D :: real
  assumes "0 < p" "0 \<le> D" "round_sig p D = D" "D \<le> X"
  shows "D \<le> round_sig p X"
proof -
  have X0: "0 \<le> X" using assms by linarith
  consider (small) "X < 2 ^ p" | (window) j where "2 ^ (p + j) \<le> X" "X < 2 ^ (p + Suc j)"
    by (rule window_cases [OF X0 assms(1)])
  then show ?thesis
  proof cases
    case small
    then have "D < 2 ^ p" using assms(4) by linarith
    then show ?thesis using small_fixed_le(1) [OF X0 small assms(2) _ assms(3) assms(4)] by simp
  next
    case (window j)
    show ?thesis
    proof (cases "2 ^ (p + j) \<le> D")
      case True
      have "D < 2 ^ (p + Suc j)" using window(2) assms(4) by linarith
      then show ?thesis
        using window_fixed_le(1) [OF window assms(1) True _ assms(3) assms(4)] by simp
    next
      case False
      then show ?thesis using window_low [OF window assms(1)] by linarith
    qed
  qed
qed

lemma round_sig_fixed_le:
  fixes X D :: real
  assumes "0 < p" "0 \<le> X" "round_sig p D = D" "X \<le> D"
  shows "round_sig p X \<le> D"
proof -
  have D0: "0 \<le> D" using assms by linarith
  consider (small) "X < 2 ^ p" | (window) j where "2 ^ (p + j) \<le> X" "X < 2 ^ (p + Suc j)"
    by (rule window_cases [OF assms(2) assms(1)])
  then show ?thesis
  proof cases
    case small
    show ?thesis
    proof (cases "D < 2 ^ p")
      case True
      then show ?thesis
        using small_fixed_le(2) [OF assms(2) small D0 True assms(3) assms(4)] by simp
    next
      case False
      then show ?thesis using small_high [OF assms(2) small] by linarith
    qed
  next
    case (window j)
    have lo: "2 ^ (p + j) \<le> D" using window(1) assms(4) by linarith
    show ?thesis
    proof (cases "D < 2 ^ (p + Suc j)")
      case True
      then show ?thesis
        using window_fixed_le(2) [OF window assms(1) lo True assms(3) assms(4)] by simp
    next
      case False
      then show ?thesis using window_high [OF window assms(1)] by linarith
    qed
  qed
qed

lemma round_sig_error:
  fixes X :: real
  assumes "0 < p" "0 \<le> X"
  shows "\<bar>round_sig p X - X\<bar> \<le> 1 / 2 + X / 2 ^ p"
proof -
  consider (small) "X < 2 ^ p" | (window) j where "2 ^ (p + j) \<le> X" "X < 2 ^ (p + Suc j)"
    by (rule window_cases [OF assms(2) assms(1)])
  then show ?thesis
  proof cases
  case small
  have "\<bar>round_sig p X - X\<bar> \<le> 1 / 2"
    unfolding round_sig_small [OF assms(2) small] by (rule rhe_error)
  moreover have "0 \<le> X / 2 ^ p" using assms(2) by simp
  ultimately show ?thesis by linarith
next
  case (window j)
  let ?q = "(2::real) ^ Suc j"
  have qpos: "0 < ?q" by simp
  have "\<bar>of_int (round_half_even (X / ?q)) - X / ?q\<bar> \<le> 1 / 2" by (rule rhe_error)
  then have "\<bar>of_int (round_half_even (X / ?q)) * ?q - X\<bar> \<le> 1 / 2 * ?q"
    by (rule scaled_error [OF qpos])
  then have e: "\<bar>round_sig p X - X\<bar> \<le> 1 / 2 * ?q"
    unfolding round_sig_window_Suc [OF window assms(1)] .
  have "1 / 2 * ?q * 2 ^ p = (2::real) ^ (p + j)" by (simp add: power_add)
  also have "\<dots> \<le> X" by (rule window(1))
  finally have "1 / 2 * ?q \<le> X / 2 ^ p"
    by (simp only: pos_le_divide_eq zero_less_power zero_less_numeral)
  then show ?thesis using e by linarith
  qed
qed

lemma round_sig_idem:
  fixes X :: real
  assumes "0 < p" "0 \<le> X"
  shows "round_sig p (round_sig p X) = round_sig p X"
proof -
  consider (small) "X < 2 ^ p" | (window) j where "2 ^ (p + j) \<le> X" "X < 2 ^ (p + Suc j)"
    by (rule window_cases [OF assms(2) assms(1)])
  then show ?thesis
  proof cases
  case small
  let ?k = "round_half_even X"
  have R: "round_sig p X = of_int ?k" by (rule round_sig_small [OF assms(2) small])
  have k0: "0 \<le> ?k" using rhe_ge [of 0 X] assms(2) by simp
  have "?k \<le> 2 ^ p" using small by (intro rhe_le) simp
  then consider "?k < 2 ^ p" | "?k = 2 ^ p" by linarith
  then show ?thesis
  proof cases
    case 1
    then have "(of_int ?k :: real) < 2 ^ p"
      by (metis of_int_less_iff of_int_numeral of_int_power)
    then have "round_sig p (of_int ?k) = of_int (round_half_even (of_int ?k))"
      using k0 by (intro round_sig_small) auto
    then show ?thesis unfolding R by simp
  next
    case 2
    then have k: "(of_int ?k :: real) = 2 ^ p" by simp
    have "round_sig p (2 ^ p) = of_int (round_half_even (2 ^ p / 2 ^ Suc 0)) * 2 ^ Suc 0"
      using assms(1) by (intro round_sig_window_Suc) auto
    also have "(2::real) ^ p / 2 ^ Suc 0 = of_int (2 ^ (p - 1))"
      using assms(1) by (cases p) simp_all
    also have "of_int (round_half_even (of_int (2 ^ (p - 1)))) * 2 ^ Suc 0 = (2::real) ^ p"
      using assms(1) by (cases p) simp_all
    finally show ?thesis unfolding R k .
  qed
next
  case (window j)
  let ?q = "(2::real) ^ Suc j"
  let ?k = "round_half_even (X / ?q)"
  have R: "round_sig p X = of_int ?k * ?q" by (rule round_sig_window_Suc [OF window assms(1)])
  have lo: "2 ^ (p + j) \<le> of_int ?k * ?q" using window_low [OF window assms(1)] unfolding R .
  have "of_int ?k * ?q \<le> 2 ^ (p + Suc j)" using window_high [OF window assms(1)] unfolding R .
  then consider "of_int ?k * ?q < 2 ^ (p + Suc j)" | "of_int ?k * ?q = 2 ^ (p + Suc j)"
    by linarith
  then show ?thesis
  proof cases
    case 1
    have "round_sig p (of_int ?k * ?q) = of_int (round_half_even (of_int ?k * ?q / ?q)) * ?q"
      by (rule round_sig_window_Suc [OF lo 1 assms(1)])
    also have "of_int ?k * ?q / ?q = of_int ?k" by simp
    finally show ?thesis unfolding R by simp
  next
    case 2
    have "round_sig p (2 ^ (p + Suc j)) =
          of_int (round_half_even (2 ^ (p + Suc j) / 2 ^ Suc (Suc j))) * 2 ^ Suc (Suc j)"
      using assms(1) by (intro round_sig_window_Suc) auto
    also have "(2::real) ^ (p + Suc j) / 2 ^ Suc (Suc j) = of_int (2 ^ (p - 1))"
      using assms(1) by (cases p) (simp_all add: power_add)
    also have "of_int (round_half_even (of_int (2 ^ (p - 1)))) * 2 ^ Suc (Suc j) =
               (2::real) ^ (p + Suc j)"
      using assms(1) by (cases p) (simp_all add: power_add)
    finally show ?thesis unfolding R 2 .
  qed
  qed
qed

lemma round_to_zero [simp]: "round_to p s 0 = 0"
  by (simp add: round_to_def)

lemma round_to_minus: "round_to p s (- x) = - round_to p s x"
  by (simp add: round_to_def sgn_minus)

lemma round_to_pos: "0 \<le> x \<Longrightarrow> round_to p s x = round_sig p (x * 2 ^ s) / 2 ^ s"
  by (cases "x = 0") (simp_all add: round_to_def)

lemma round_to_nonneg: "0 \<le> x \<Longrightarrow> 0 \<le> round_to p s x"
  by (simp add: round_to_pos round_sig_nonneg)

lemma round_to_nonpos: "x \<le> 0 \<Longrightarrow> round_to p s x \<le> 0"
  using round_to_nonneg [of "- x" p s] by (simp add: round_to_minus)

lemma fixed_scaled:
  assumes "0 \<le> d" "round_to p s d = d"
  shows "round_sig p (d * 2 ^ s) = d * 2 ^ s"
  using assms by (simp add: round_to_pos field_simps)

lemma round_to_fixed_ge_pos:
  assumes "0 < p" "0 \<le> d" "round_to p s d = d" "d \<le> y"
  shows "d \<le> round_to p s y"
proof -
  have y0: "0 \<le> y" using assms by linarith
  have "d * 2 ^ s \<le> round_sig p (y * 2 ^ s)"
    using assms by (intro round_sig_fixed_ge fixed_scaled) auto
  then show ?thesis by (simp add: round_to_pos [OF y0] pos_le_divide_eq)
qed

lemma round_to_fixed_le_pos:
  assumes "0 < p" "0 \<le> y" "round_to p s d = d" "y \<le> d"
  shows "round_to p s y \<le> d"
proof -
  have d0: "0 \<le> d" using assms by linarith
  have "round_sig p (y * 2 ^ s) \<le> d * 2 ^ s"
    using assms d0 by (intro round_sig_fixed_le fixed_scaled) auto
  then show ?thesis by (simp add: round_to_pos [OF assms(2)] pos_divide_le_eq)
qed

lemma round_to_fixed_ge:
  assumes "0 < p" "round_to p s d = d" "d \<le> y"
  shows "d \<le> round_to p s y"
proof (cases "0 \<le> y")
  case True
  show ?thesis
  proof (cases "0 \<le> d")
    case True
    then show ?thesis using assms by (intro round_to_fixed_ge_pos) auto
  next
    case False
    then show ?thesis using round_to_nonneg [OF \<open>0 \<le> y\<close>, of p s] by linarith
  qed
next
  case False
  have "round_to p s (- y) \<le> - d"
    using assms False by (intro round_to_fixed_le_pos) (auto simp: round_to_minus)
  then show ?thesis by (simp add: round_to_minus)
qed

lemma round_to_fixed_le:
  assumes "0 < p" "round_to p s d = d" "y \<le> d"
  shows "round_to p s y \<le> d"
  using round_to_fixed_ge [of p s "- d" "- y"] assms by (simp add: round_to_minus)

lemma scaled_abs:
  fixes R x q :: real
  assumes "0 < q"
  shows "\<bar>R - x * q\<bar> / q = \<bar>R / q - x\<bar>"
proof -
  have "R / q - x = (R - x * q) / q" using assms by (simp add: field_simps)
  then show ?thesis using assms by (simp add: abs_divide)
qed

lemma round_to_error:
  assumes "0 < p"
  shows "\<bar>round_to p s x - x\<bar> \<le> 1 / 2 ^ Suc s + \<bar>x\<bar> / 2 ^ p"
proof -
  have pos: "\<bar>round_to p s x - x\<bar> \<le> 1 / 2 ^ Suc s + x / 2 ^ p" if "0 \<le> x" for x
  proof -
    have "\<bar>round_sig p (x * 2 ^ s) - x * 2 ^ s\<bar> \<le> 1 / 2 + x * 2 ^ s / 2 ^ p"
      using that assms by (intro round_sig_error) auto
    then have "\<bar>round_sig p (x * 2 ^ s) - x * 2 ^ s\<bar> / 2 ^ s \<le> (1 / 2 + x * 2 ^ s / 2 ^ p) / 2 ^ s"
      by (intro divide_right_mono) auto
    moreover have "\<bar>round_sig p (x * 2 ^ s) - x * 2 ^ s\<bar> / 2 ^ s =
                   \<bar>round_sig p (x * 2 ^ s) / 2 ^ s - x\<bar>"
      by (rule scaled_abs) simp
    moreover have "(1 / 2 + x * 2 ^ s / 2 ^ p) / 2 ^ s = 1 / 2 ^ Suc s + x / 2 ^ p"
      by (simp add: add_divide_distrib)
    ultimately show ?thesis by (simp add: round_to_pos [OF that])
  qed
  show ?thesis
  proof (cases "0 \<le> x")
    case True
    then show ?thesis using pos [of x] by simp
  next
    case False
    then have "\<bar>round_to p s (- x) - (- x)\<bar> \<le> 1 / 2 ^ Suc s + (- x) / 2 ^ p"
      by (intro pos) auto
    then show ?thesis using False by (simp add: round_to_minus)
  qed
qed

lemma round_to_idem:
  assumes "0 < p"
  shows "round_to p s (round_to p s x) = round_to p s x"
proof -
  have pos: "round_to p s (round_to p s x) = round_to p s x" if "0 \<le> x" for x
  proof -
    have r0: "0 \<le> round_to p s x" using that by (rule round_to_nonneg)
    have "round_to p s (round_to p s x) = round_sig p (round_sig p (x * 2 ^ s)) / 2 ^ s"
      by (simp add: round_to_pos [OF r0]) (simp add: round_to_pos [OF that])
    also have "\<dots> = round_sig p (x * 2 ^ s) / 2 ^ s"
      using that assms by (simp add: round_sig_idem)
    finally show ?thesis by (simp add: round_to_pos [OF that])
  qed
  show ?thesis
  proof (cases "0 \<le> x")
    case True
    then show ?thesis by (rule pos)
  next
    case False
    then have "round_to p s (round_to p s (- x)) = round_to p s (- x)" by (intro pos) auto
    then show ?thesis by (simp add: round_to_minus)
  qed
qed

lemma round_to_eval:
  assumes "0 < p" "t \<le> s" "2 ^ (p - 1) \<le> x * 2 ^ t" "x * 2 ^ t < 2 ^ p"
    and "\<bar>x * 2 ^ t - of_int m\<bar> < 1 / 2"
  shows "round_to p s x = of_int m / 2 ^ t"
proof -
  define j where "j = s - t"
  have s: "s = t + j" using assms(2) by (simp add: j_def)
  have x0: "0 \<le> x"
  proof (rule ccontr)
    assume "\<not> 0 \<le> x"
    then have "x * 2 ^ t < 0" by (simp add: mult_neg_pos)
    moreover have "(0::real) \<le> 2 ^ (p - 1)" by simp
    ultimately show False using assms(3) by linarith
  qed
  have X: "x * 2 ^ s = x * 2 ^ t * 2 ^ j" by (simp add: s power_add)
  have lo: "2 ^ (p - 1 + j) \<le> x * 2 ^ s"
    unfolding X power_add using assms(3) by (intro mult_right_mono) auto
  have hi: "x * 2 ^ s < 2 ^ (p + j)"
    unfolding X power_add using assms(4) by (intro mult_strict_right_mono) auto
  have "round_sig p (x * 2 ^ s) = of_int (round_half_even (x * 2 ^ s / 2 ^ j)) * 2 ^ j"
    by (rule round_sig_window [OF lo hi assms(1)])
  also have "x * 2 ^ s / 2 ^ j = x * 2 ^ t" by (simp add: X)
  also have "round_half_even (x * 2 ^ t) = m" by (rule rhe_near [OF assms(5)])
  finally have "round_sig p (x * 2 ^ s) = of_int m * 2 ^ j" .
  then show ?thesis by (simp add: round_to_pos [OF x0] s power_add)
qed

lemma round_to_fixed_multiple:
  assumes "0 < p" "t \<le> s" "2 ^ (p - 1) \<le> e * 2 ^ t" "e * 2 ^ t < 2 ^ p"
    and "round_to p s e = e"
  shows "e * 2 ^ t = of_int (round_half_even (e * 2 ^ t))"
proof -
  define j where "j = s - t"
  have s: "s = t + j" using assms(2) by (simp add: j_def)
  have e0: "0 \<le> e"
  proof (rule ccontr)
    assume "\<not> 0 \<le> e"
    then have "e * 2 ^ t < 0" by (simp add: mult_neg_pos)
    moreover have "(0::real) \<le> 2 ^ (p - 1)" by simp
    ultimately show False using assms(3) by linarith
  qed
  have X: "e * 2 ^ s = e * 2 ^ t * 2 ^ j" by (simp add: s power_add)
  have lo: "2 ^ (p - 1 + j) \<le> e * 2 ^ s"
    unfolding X power_add using assms(3) by (intro mult_right_mono) auto
  have hi: "e * 2 ^ s < 2 ^ (p + j)"
    unfolding X power_add using assms(4) by (intro mult_strict_right_mono) auto
  have "round_sig p (e * 2 ^ s) = of_int (round_half_even (e * 2 ^ s / 2 ^ j)) * 2 ^ j"
    by (rule round_sig_window [OF lo hi assms(1)])
  also have "e * 2 ^ s / 2 ^ j = e * 2 ^ t" by (simp add: X)
  finally have "round_sig p (e * 2 ^ s) = of_int (round_half_even (e * 2 ^ t)) * 2 ^ j" .
  moreover have "round_sig p (e * 2 ^ s) = e * 2 ^ s"
    using e0 assms(5) by (rule fixed_scaled)
  ultimately have "e * 2 ^ t * 2 ^ j = of_int (round_half_even (e * 2 ^ t)) * 2 ^ j"
    unfolding X by simp
  then show ?thesis by simp
qed

lemma b64_eval:
  assumes "t \<le> 1074" "2 ^ 52 \<le> x * 2 ^ t" "x * 2 ^ t < 2 ^ 53"
    and "\<bar>x * 2 ^ t - of_int m\<bar> < 1 / 2"
  shows "b64 x = of_int m / 2 ^ t"
  unfolding b64_def using assms by (intro round_to_eval) auto

lemma b64_172 [simp]: "b64 (17 / 2) = 17 / 2"
  using b64_eval [of 49 "17 / 2" 4785074604081152] by simp

text \<open>
  The relative error of a rounding is at most \<open>2 ^ - 53\<close>, apart from the
  subnormal quantum.
\<close>

lemma b64_error: "\<bar>b64 x - x\<bar> \<le> 1 / 2 ^ 60 + \<bar>x\<bar> / 2 ^ 53"
proof -
  have "\<bar>b64 x - x\<bar> \<le> 1 / 2 ^ Suc 1074 + \<bar>x\<bar> / 2 ^ 53"
    unfolding b64_def by (rule round_to_error) simp
  moreover have "(2::real) ^ 60 \<le> 2 ^ Suc 1074" by (rule power_increasing) auto
  then have "1 / (2::real) ^ Suc 1074 \<le> 1 / 2 ^ 60" by (intro divide_left_mono) auto
  ultimately show ?thesis by linarith
qed

lemma b64_fixed_ge: "b64 d = d \<Longrightarrow> d \<le> y \<Longrightarrow> d \<le> b64 y"
  unfolding b64_def by (rule round_to_fixed_ge) auto

lemma b64_fixed_le: "b64 d = d \<Longrightarrow> y \<le> d \<Longrightarrow> b64 y \<le> d"
  unfolding b64_def by (rule round_to_fixed_le) auto

lemma b64_idem [simp]: "b64 (b64 x) = b64 x"
  unfolding b64_def by (rule round_to_idem) simp

lemma b64_multiple_49:
  assumes "b64 e = e" "8 \<le> e" "e < 16"
  shows "\<exists>K::int. e = of_int K / 2 ^ 49"
proof -
  have "e * 2 ^ 49 = of_int (round_half_even (e * 2 ^ 49))"
    using assms unfolding b64_def by (intro round_to_fixed_multiple [of 53 49 1074]) auto
  then have "e = of_int (round_half_even (e * 2 ^ 49)) / 2 ^ 49"
    by (simp add: field_simps)
  then show ?thesis ..
qed

text \<open>
  Three familiar values: 0.1 is not a double, \<^verbatim>\<open>0.1 + 0.2\<close> is a tie that goes to
  the even neighbour \<^verbatim>\<open>0.30000000000000004\<close>, and that is not the double of 0.3.
\<close>

lemma round_to_scaled:
  assumes "0 < p" "t \<le> s" "2 ^ (p - 1) \<le> x * 2 ^ t" "x * 2 ^ t < 2 ^ p"
  shows "round_to p s x = of_int (round_half_even (x * 2 ^ t)) / 2 ^ t"
proof -
  define j where "j = s - t"
  have s: "s = t + j" using assms(2) by (simp add: j_def)
  have x0: "0 \<le> x"
  proof (rule ccontr)
    assume "\<not> 0 \<le> x"
    then have "x * 2 ^ t < 0" by (simp add: mult_neg_pos)
    moreover have "(0::real) \<le> 2 ^ (p - 1)" by simp
    ultimately show False using assms(3) by linarith
  qed
  have X: "x * 2 ^ s = x * 2 ^ t * 2 ^ j" by (simp add: s power_add)
  have lo: "2 ^ (p - 1 + j) \<le> x * 2 ^ s"
    unfolding X power_add using assms(3) by (intro mult_right_mono) auto
  have hi: "x * 2 ^ s < 2 ^ (p + j)"
    unfolding X power_add using assms(4) by (intro mult_strict_right_mono) auto
  have "round_sig p (x * 2 ^ s) = of_int (round_half_even (x * 2 ^ s / 2 ^ j)) * 2 ^ j"
    by (rule round_sig_window [OF lo hi assms(1)])
  also have "x * 2 ^ s / 2 ^ j = x * 2 ^ t" by (simp add: X)
  finally have "round_sig p (x * 2 ^ s) = of_int (round_half_even (x * 2 ^ t)) * 2 ^ j" .
  then show ?thesis by (simp add: round_to_pos [OF x0] s power_add)
qed

lemma b64_scaled:
  assumes "t \<le> 1074" "2 ^ 52 \<le> x * 2 ^ t" "x * 2 ^ t < 2 ^ 53"
  shows "b64 x = of_int (round_half_even (x * 2 ^ t)) / 2 ^ t"
  unfolding b64_def using assms by (intro round_to_scaled) auto

lemma b64_tenth: "b64 (1 / 10) = 3602879701896397 / 2 ^ 55"
  using b64_eval [of 56 "1 / 10" 7205759403792794] by simp

lemma b64_fifth: "b64 (2 / 10) = 3602879701896397 / 2 ^ 54"
  using b64_eval [of 55 "2 / 10" 7205759403792794] by simp

lemma b64_three_tenths: "b64 (3 / 10) = 5404319552844595 / 2 ^ 54"
  using b64_eval [of 54 "3 / 10" 5404319552844595] by simp

lemma b64_tenth_plus_fifth: "b64 (b64 (1 / 10) + b64 (2 / 10)) = 5404319552844596 / 2 ^ 54"
proof -
  have "round_half_even (10808639105689191 / 2) = 5404319552844596"
    unfolding round_half_even_def Let_def by simp
  then show ?thesis
    unfolding b64_tenth b64_fifth
    using b64_scaled [of 54 "3602879701896397 / 2 ^ 55 + 3602879701896397 / 2 ^ 54"] by simp
qed

section \<open>Online learner\<close>

lemma getCount_observe:
  "getCount (observe st nm r) k = (if k = nm then getCount st nm + 1 else getCount st k)"
  by (simp add: getCount_def observe_def Let_def split: option.splits)

lemma getCount_fold_observe:
  "getCount (fold (\<lambda>(k, r) t. observe t k r) obs st) nm =
     getCount st nm + length (filter (\<lambda>(k, r). k = nm) obs)"
  by (induction obs arbitrary: st) (auto simp: getCount_observe)

text \<open>
  C3: \<open>adjust\<close> returns the raw score unchanged while the sign has fewer than 8
  recorded observations (none at all included); from 8 observations on it returns the raw
  score plus \<open>8.5 - ema\<close> clamped to \<open>[-2.5, 2.5]\<close>, so the offset lies in that
  interval. The recorded count is the number of \<open>observe\<close> calls for the sign since the
  last reset.
\<close>

theorem adjust_offset_guard:
  "(getCount st nm < 8 \<longrightarrow> adjust st nm rawScore = rawScore) \<and>
   (8 \<le> getCount st nm \<longrightarrow>
      (\<exists>s. st nm = Some s \<and>
           adjust st nm rawScore = rawScore + max (- 2.5) (min 2.5 (8.5 - ema s))) \<and>
      - 2.5 \<le> adjust st nm rawScore - rawScore \<and>
      adjust st nm rawScore - rawScore \<le> 2.5) \<and>
   getCount (fold (\<lambda>(k, r) t. observe t k r) obs (OnlineLearner_reset st0)) nm =
     length (filter (\<lambda>(k, r). k = nm) obs)"
proof (intro conjI impI)
  assume "getCount st nm < 8"
  then show "adjust st nm rawScore = rawScore"
    by (simp add: getCount_def adjust_def MIN_CONFIRM_def split: option.splits)
next
  assume ge: "8 \<le> getCount st nm"
  then obtain s where s: "st nm = Some s" "8 \<le> count s"
    by (auto simp: getCount_def split: option.splits)
  then have eq: "adjust st nm rawScore = rawScore + max (- 2.5) (min 2.5 (8.5 - ema s))"
    by (simp add: adjust_def MIN_CONFIRM_def MAX_OFFSET_def TARGET_SCORE_def Let_def)
  show "\<exists>s. st nm = Some s \<and>
           adjust st nm rawScore = rawScore + max (- 2.5) (min 2.5 (8.5 - ema s))"
    using s eq by blast
  show "- 2.5 \<le> adjust st nm rawScore - rawScore" unfolding eq by (simp add: max_def min_def)
  show "adjust st nm rawScore - rawScore \<le> 2.5" unfolding eq by (simp add: max_def min_def)
next
  show "getCount (fold (\<lambda>(k, r) t. observe t k r) obs (OnlineLearner_reset st0)) nm =
     length (filter (\<lambda>(k, r). k = nm) obs)"
    by (simp add: getCount_fold_observe) (simp add: getCount_def OnlineLearner_reset_def)
qed

theorem adjust_offset_guard_witness:
  "getCount (Map.empty(''A'' \<mapsto> \<lparr>ema = 7, count = 8\<rparr>)) ''B'' < 8 \<and>
   adjust (Map.empty(''A'' \<mapsto> \<lparr>ema = 7, count = 8\<rparr>)) ''B'' 5 = 5 \<and>
   8 \<le> getCount (Map.empty(''A'' \<mapsto> \<lparr>ema = 7, count = 8\<rparr>)) ''A'' \<and>
   adjust (Map.empty(''A'' \<mapsto> \<lparr>ema = 7, count = 8\<rparr>)) ''A'' 5 = 6.5 \<and>
   adjust (Map.empty(''A'' \<mapsto> \<lparr>ema = 2, count = 9\<rparr>)) ''A'' 5 = 7.5"
  using adjust_offset_guard [of "Map.empty(''A'' \<mapsto> \<lparr>ema = 7, count = 8\<rparr>)" "''B''" 5 "[]" Map.empty]
    adjust_offset_guard [of "Map.empty(''A'' \<mapsto> \<lparr>ema = 7, count = 8\<rparr>)" "''A''" 5 "[]" Map.empty]
    adjust_offset_guard [of "Map.empty(''A'' \<mapsto> \<lparr>ema = 2, count = 9\<rparr>)" "''A''" 5 "[]" Map.empty]
  by (simp add: getCount_def)

subsection \<open>The moving average in double precision\<close>

text \<open>
  The constants of the update for the score 8.5: \<open>EMA_ALPHA\<close>, the rounded
  \<open>1 - EMA_ALPHA\<close> and the rounded \<open>EMA_ALPHA * 8.5\<close>. With them one observation of
  8.5 maps the average \<open>e\<close> to
  \<open>b64 (2296835809958953 / 2 ^ 51 + b64 (7926335344172073 / 2 ^ 53 * e))\<close>.
\<close>

lemma b64_012: "b64 (12 / 100) = 1080863910568919 / 2 ^ 53"
  using b64_eval [of 56 "12 / 100" 8646911284551352] by simp

lemma b64_088: "b64 (1 - 1080863910568919 / 2 ^ 53) = 7926335344172073 / 2 ^ 53"
  using b64_eval [of 53 "1 - 1080863910568919 / 2 ^ 53" 7926335344172073] by simp

lemma b64_102: "b64 (1080863910568919 / 2 ^ 53 * (17 / 2)) = 2296835809958953 / 2 ^ 51"
  using b64_eval [of 52 "1080863910568919 / 2 ^ 53 * (17 / 2)" 4593671619917906] by simp

text \<open>
  One observation of 8.5 leaves the average 8.5 unchanged, and also the three doubles
  just below it and the four just above it (the doubles between 8 and 16 are the
  multiples of \<open>2 ^ - 49\<close>, and \<open>8.5 = 4785074604081152 / 2 ^ 49\<close>).
\<close>

lemma step_mid:
  "b64 (2296835809958953 / 2 ^ 51 + b64 (7926335344172073 / 2 ^ 53 * (4785074604081152 / 2 ^ 49))) =
     4785074604081152 / 2 ^ 49"
proof -
  have r1: "b64 (7926335344172073 / 2 ^ 53 * (4785074604081152 / 2 ^ 49)) = 8421731303182828 / 2 ^ 50"
    using b64_eval [of 50 "7926335344172073 / 2 ^ 53 * (4785074604081152 / 2 ^ 49)" 8421731303182828] by simp
  have r2: "b64 (2296835809958953 / 2 ^ 51 + 8421731303182828 / 2 ^ 50) = 4785074604081152 / 2 ^ 49"
    using b64_eval [of 49 "2296835809958953 / 2 ^ 51 + 8421731303182828 / 2 ^ 50" 4785074604081152] by simp
  show ?thesis unfolding r1 r2 by simp
qed

lemma step_m1:
  "b64 (2296835809958953 / 2 ^ 51 + b64 (7926335344172073 / 2 ^ 53 * (4785074604081151 / 2 ^ 49))) =
     4785074604081151 / 2 ^ 49"
proof -
  have r1: "b64 (7926335344172073 / 2 ^ 53 * (4785074604081151 / 2 ^ 49)) = 8421731303182826 / 2 ^ 50"
    using b64_eval [of 50 "7926335344172073 / 2 ^ 53 * (4785074604081151 / 2 ^ 49)" 8421731303182826] by simp
  have r2: "b64 (2296835809958953 / 2 ^ 51 + 8421731303182826 / 2 ^ 50) = 4785074604081151 / 2 ^ 49"
    using b64_eval [of 49 "2296835809958953 / 2 ^ 51 + 8421731303182826 / 2 ^ 50" 4785074604081151] by simp
  show ?thesis unfolding r1 r2 by simp
qed

lemma step_m2:
  "b64 (2296835809958953 / 2 ^ 51 + b64 (7926335344172073 / 2 ^ 53 * (4785074604081150 / 2 ^ 49))) =
     4785074604081150 / 2 ^ 49"
proof -
  have r1: "b64 (7926335344172073 / 2 ^ 53 * (4785074604081150 / 2 ^ 49)) = 8421731303182824 / 2 ^ 50"
    using b64_eval [of 50 "7926335344172073 / 2 ^ 53 * (4785074604081150 / 2 ^ 49)" 8421731303182824] by simp
  have r2: "b64 (2296835809958953 / 2 ^ 51 + 8421731303182824 / 2 ^ 50) = 4785074604081150 / 2 ^ 49"
    using b64_eval [of 49 "2296835809958953 / 2 ^ 51 + 8421731303182824 / 2 ^ 50" 4785074604081150] by simp
  show ?thesis unfolding r1 r2 by simp
qed

lemma step_m3:
  "b64 (2296835809958953 / 2 ^ 51 + b64 (7926335344172073 / 2 ^ 53 * (4785074604081149 / 2 ^ 49))) =
     4785074604081149 / 2 ^ 49"
proof -
  have r1: "b64 (7926335344172073 / 2 ^ 53 * (4785074604081149 / 2 ^ 49)) = 8421731303182822 / 2 ^ 50"
    using b64_eval [of 50 "7926335344172073 / 2 ^ 53 * (4785074604081149 / 2 ^ 49)" 8421731303182822] by simp
  have r2: "b64 (2296835809958953 / 2 ^ 51 + 8421731303182822 / 2 ^ 50) = 4785074604081149 / 2 ^ 49"
    using b64_eval [of 49 "2296835809958953 / 2 ^ 51 + 8421731303182822 / 2 ^ 50" 4785074604081149] by simp
  show ?thesis unfolding r1 r2 by simp
qed

lemma step_p1:
  "b64 (2296835809958953 / 2 ^ 51 + b64 (7926335344172073 / 2 ^ 53 * (4785074604081153 / 2 ^ 49))) =
     4785074604081153 / 2 ^ 49"
proof -
  have r1: "b64 (7926335344172073 / 2 ^ 53 * (4785074604081153 / 2 ^ 49)) = 8421731303182829 / 2 ^ 50"
    using b64_eval [of 50 "7926335344172073 / 2 ^ 53 * (4785074604081153 / 2 ^ 49)" 8421731303182829] by simp
  have r2: "b64 (2296835809958953 / 2 ^ 51 + 8421731303182829 / 2 ^ 50) = 4785074604081153 / 2 ^ 49"
    using b64_eval [of 49 "2296835809958953 / 2 ^ 51 + 8421731303182829 / 2 ^ 50" 4785074604081153] by simp
  show ?thesis unfolding r1 r2 by simp
qed

lemma step_p2:
  "b64 (2296835809958953 / 2 ^ 51 + b64 (7926335344172073 / 2 ^ 53 * (4785074604081154 / 2 ^ 49))) =
     4785074604081154 / 2 ^ 49"
proof -
  have r1: "b64 (7926335344172073 / 2 ^ 53 * (4785074604081154 / 2 ^ 49)) = 8421731303182831 / 2 ^ 50"
    using b64_eval [of 50 "7926335344172073 / 2 ^ 53 * (4785074604081154 / 2 ^ 49)" 8421731303182831] by simp
  have r2: "b64 (2296835809958953 / 2 ^ 51 + 8421731303182831 / 2 ^ 50) = 4785074604081154 / 2 ^ 49"
    using b64_eval [of 49 "2296835809958953 / 2 ^ 51 + 8421731303182831 / 2 ^ 50" 4785074604081154] by simp
  show ?thesis unfolding r1 r2 by simp
qed

lemma step_p3:
  "b64 (2296835809958953 / 2 ^ 51 + b64 (7926335344172073 / 2 ^ 53 * (4785074604081155 / 2 ^ 49))) =
     4785074604081155 / 2 ^ 49"
proof -
  have r1: "b64 (7926335344172073 / 2 ^ 53 * (4785074604081155 / 2 ^ 49)) = 8421731303182833 / 2 ^ 50"
    using b64_eval [of 50 "7926335344172073 / 2 ^ 53 * (4785074604081155 / 2 ^ 49)" 8421731303182833] by simp
  have r2: "b64 (2296835809958953 / 2 ^ 51 + 8421731303182833 / 2 ^ 50) = 4785074604081155 / 2 ^ 49"
    using b64_eval [of 49 "2296835809958953 / 2 ^ 51 + 8421731303182833 / 2 ^ 50" 4785074604081155] by simp
  show ?thesis unfolding r1 r2 by simp
qed

lemma step_p4:
  "b64 (2296835809958953 / 2 ^ 51 + b64 (7926335344172073 / 2 ^ 53 * (4785074604081156 / 2 ^ 49))) =
     4785074604081156 / 2 ^ 49"
proof -
  have r1: "b64 (7926335344172073 / 2 ^ 53 * (4785074604081156 / 2 ^ 49)) = 8421731303182835 / 2 ^ 50"
    using b64_eval [of 50 "7926335344172073 / 2 ^ 53 * (4785074604081156 / 2 ^ 49)" 8421731303182835] by simp
  have r2: "b64 (2296835809958953 / 2 ^ 51 + 8421731303182835 / 2 ^ 50) = 4785074604081156 / 2 ^ 49"
    using b64_eval [of 49 "2296835809958953 / 2 ^ 51 + 8421731303182835 / 2 ^ 50" 4785074604081156] by simp
  show ?thesis unfolding r1 r2 by simp
qed

text \<open>
  One observation of 8.5 multiplies the distance of the average from 8.5 by 0.88, up to
  the two roundings.
\<close>

lemma step_contract:
  fixes e :: real
  shows "\<bar>b64 (2296835809958953 / 2 ^ 51 + b64 (7926335344172073 / 2 ^ 53 * e)) - 17 / 2\<bar> \<le>
         88 / 100 * \<bar>e - 17 / 2\<bar> + (\<bar>e\<bar> + 1) / 2 ^ 52"
proof -
  define r1 where "r1 = b64 (7926335344172073 / 2 ^ 53 * e)"
  define y where "y = 2296835809958953 / 2 ^ 51 + r1"
  define r2 where "r2 = b64 y"
  have E1: "\<bar>r1 - 7926335344172073 / 2 ^ 53 * e\<bar> \<le>
            1 / 2 ^ 60 + \<bar>7926335344172073 / 2 ^ 53 * e\<bar> / 2 ^ 53"
    unfolding r1_def by (rule b64_error)
  have E2: "\<bar>r2 - y\<bar> \<le> 1 / 2 ^ 60 + \<bar>y\<bar> / 2 ^ 53"
    unfolding r2_def by (rule b64_error)
  define n where "n = \<bar>e\<bar>"
  define d where "d = \<bar>e - 17 / 2\<bar>"
  define d1 where "d1 = \<bar>r1 - 7926335344172073 / 2 ^ 53 * e\<bar>"
  define d2 where "d2 = \<bar>r2 - y\<bar>"
  have n0: "0 \<le> n" and dn: "d \<le> n + 17 / 2" unfolding n_def d_def by linarith+
  have "\<bar>7926335344172073 / 2 ^ 53 * e\<bar> = 7926335344172073 / 2 ^ 53 * n"
    unfolding n_def by (simp add: abs_mult)
  then have e1: "d1 \<le> 1 / 2 ^ 60 + 7926335344172073 / 2 ^ 53 * n / 2 ^ 53"
    using E1 unfolding d1_def by simp
  have "\<bar>r1\<bar> \<le> \<bar>r1 - 7926335344172073 / 2 ^ 53 * e\<bar> + \<bar>7926335344172073 / 2 ^ 53 * e\<bar>"
    by linarith
  then have a1: "\<bar>r1\<bar> \<le> d1 + 7926335344172073 / 2 ^ 53 * n"
    unfolding d1_def n_def by (simp add: abs_mult)
  have "\<bar>y\<bar> \<le> \<bar>2296835809958953 / 2 ^ 51 :: real\<bar> + \<bar>r1\<bar>"
    unfolding y_def by (rule abs_triangle_ineq)
  then have "\<bar>y\<bar> \<le> 2296835809958953 / 2 ^ 51 + \<bar>r1\<bar>" by simp
  then have ay: "\<bar>y\<bar> \<le> 2296835809958953 / 2 ^ 51 + d1 + 7926335344172073 / 2 ^ 53 * n"
    using a1 by linarith
  have "\<bar>y\<bar> / 2 ^ 53 \<le>
        (2296835809958953 / 2 ^ 51 + d1 + 7926335344172073 / 2 ^ 53 * n) / 2 ^ 53"
    using ay by (intro divide_right_mono) auto
  then have e2: "d2 \<le> 1 / 2 ^ 60 +
        (2296835809958953 / 2 ^ 51 + d1 + 7926335344172073 / 2 ^ 53 * n) / 2 ^ 53"
    using E2 unfolding d2_def by linarith
  have id: "y - 17 / 2 = (r1 - 7926335344172073 / 2 ^ 53 * e) +
            7926335344172073 / 2 ^ 53 * (e - 17 / 2) + 1 / 2 ^ 54"
  proof -
    have g: "\<And>c b h :: real. (c + r1) - h = (r1 - b * e) + b * (e - h) + (c - h + b * h)"
      by (simp add: algebra_simps)
    have c: "2296835809958953 / 2 ^ 51 - 17 / 2 + 7926335344172073 / 2 ^ 53 * (17 / 2) = (1 / 2 ^ 54 :: real)"
      by simp
    show ?thesis unfolding y_def
      using g [of "2296835809958953 / 2 ^ 51" "17 / 2" "7926335344172073 / 2 ^ 53"] unfolding c .
  qed
  have am: "\<And>b x :: real. 0 \<le> b \<Longrightarrow> \<bar>b * x\<bar> = b * \<bar>x\<bar>"
    by (simp add: abs_mult)
  have bd: "\<bar>7926335344172073 / 2 ^ 53 * (e - 17 / 2)\<bar> = 7926335344172073 / 2 ^ 53 * d"
    unfolding d_def by (rule am) simp
  have tri3: "\<And>a b c :: real. 0 \<le> c \<Longrightarrow> \<bar>a + b + c\<bar> \<le> \<bar>a\<bar> + \<bar>b\<bar> + c"
    by linarith
  have "\<bar>y - 17 / 2\<bar> \<le> \<bar>r1 - 7926335344172073 / 2 ^ 53 * e\<bar> +
          \<bar>7926335344172073 / 2 ^ 53 * (e - 17 / 2)\<bar> + 1 / 2 ^ 54"
    unfolding id by (rule tri3) simp
  then have ayd: "\<bar>y - 17 / 2\<bar> \<le> d1 + 7926335344172073 / 2 ^ 53 * d + 1 / 2 ^ 54"
    unfolding bd d1_def .
  have "\<bar>r2 - 17 / 2\<bar> \<le> d2 + \<bar>y - 17 / 2\<bar>" unfolding d2_def by linarith
  then have "\<bar>r2 - 17 / 2\<bar> \<le> d2 + d1 + 7926335344172073 / 2 ^ 53 * d + 1 / 2 ^ 54"
    using ayd by linarith
  then have "\<bar>r2 - 17 / 2\<bar> \<le> 88 / 100 * d + (n + 1) / 2 ^ 52"
    using e1 e2 n0 dn by (simp add: field_simps)
  then have "\<bar>r2 - 17 / 2\<bar> \<le> 88 / 100 * \<bar>e - 17 / 2\<bar> + (\<bar>e\<bar> + 1) / 2 ^ 52"
    unfolding d_def n_def .
  then show ?thesis unfolding r2_def y_def r1_def .
qed

text \<open>
  A double other than 8.5 is one of the seven neighbours above, or at least four quanta
  below 8.5, or at least five quanta above it.
\<close>

lemma below_cases:
  assumes "b64 e = e" "e < 17 / 2"
  shows "e \<le> 4785074604081148 / 2 ^ 49 \<or> e = 4785074604081149 / 2 ^ 49 \<or>
         e = 4785074604081150 / 2 ^ 49 \<or> e = 4785074604081151 / 2 ^ 49"
proof (cases "8 \<le> e")
  case True
  then obtain K :: int where K: "e = of_int K / 2 ^ 49"
    using b64_multiple_49 [of e] assms by auto
  have "real_of_int K < 4785074604081152" using assms(2) unfolding K by (simp add: field_simps)
  then have "K < 4785074604081152" by linarith
  then have "K \<le> 4785074604081148 \<or> K = 4785074604081149 \<or> K = 4785074604081150 \<or>
             K = 4785074604081151" by linarith
  then show ?thesis unfolding K by (auto simp add: field_simps)
next
  case False
  then have "e \<le> 4785074604081148 / 2 ^ 49" by simp
  then show ?thesis by blast
qed

lemma above_cases:
  assumes "b64 e = e" "17 / 2 < e"
  shows "4785074604081157 / 2 ^ 49 \<le> e \<or> e = 4785074604081153 / 2 ^ 49 \<or>
         e = 4785074604081154 / 2 ^ 49 \<or> e = 4785074604081155 / 2 ^ 49 \<or>
         e = 4785074604081156 / 2 ^ 49"
proof (cases "e < 16")
  case True
  then obtain K :: int where K: "e = of_int K / 2 ^ 49"
    using b64_multiple_49 [of e] assms by auto
  have "4785074604081152 < real_of_int K" using assms(2) unfolding K by (simp add: field_simps)
  then have "4785074604081152 < K" by linarith
  then have "4785074604081157 \<le> K \<or> K = 4785074604081153 \<or> K = 4785074604081154 \<or>
             K = 4785074604081155 \<or> K = 4785074604081156" by linarith
  then show ?thesis unfolding K by (auto simp add: field_simps)
next
  case False
  then have "4785074604081157 / 2 ^ 49 \<le> e" by simp
  then show ?thesis by blast
qed

text \<open>
  The update never crosses 8.5, and away from the seven neighbours it does not move the
  average away from 8.5.
\<close>

lemma r1_fixed_m1: "b64 (8421731303182826 / 2 ^ 50) = 8421731303182826 / 2 ^ 50"
  using b64_eval [of 50 "8421731303182826 / 2 ^ 50" 8421731303182826] by simp

lemma r1_fixed_p1: "b64 (8421731303182829 / 2 ^ 50) = 8421731303182829 / 2 ^ 50"
  using b64_eval [of 50 "8421731303182829 / 2 ^ 50" 8421731303182829] by simp

lemma step_le_target:
  assumes "e \<le> 4785074604081151 / 2 ^ 49"
  shows "b64 (2296835809958953 / 2 ^ 51 + b64 (7926335344172073 / 2 ^ 53 * e)) \<le> 17 / 2"
proof -
  have "7926335344172073 / 2 ^ 53 * e \<le> 7926335344172073 / 2 ^ 53 * (4785074604081151 / 2 ^ 49)"
    using assms by (intro mult_left_mono) auto
  also have "\<dots> \<le> 8421731303182826 / 2 ^ 50" by simp
  finally have "b64 (7926335344172073 / 2 ^ 53 * e) \<le> 8421731303182826 / 2 ^ 50"
    by (rule b64_fixed_le [OF r1_fixed_m1])
  then have "2296835809958953 / 2 ^ 51 + b64 (7926335344172073 / 2 ^ 53 * e) \<le>
             2296835809958953 / 2 ^ 51 + 8421731303182826 / 2 ^ 50" by linarith
  also have "\<dots> \<le> (17 / 2 :: real)" by simp
  finally show ?thesis by (rule b64_fixed_le [OF b64_172])
qed

lemma step_ge_target:
  assumes "4785074604081153 / 2 ^ 49 \<le> e"
  shows "17 / 2 \<le> b64 (2296835809958953 / 2 ^ 51 + b64 (7926335344172073 / 2 ^ 53 * e))"
proof -
  have "(8421731303182829 / 2 ^ 50 :: real) \<le>
        7926335344172073 / 2 ^ 53 * (4785074604081153 / 2 ^ 49)" by simp
  also have "\<dots> \<le> 7926335344172073 / 2 ^ 53 * e"
    using assms by (intro mult_left_mono) auto
  finally have "8421731303182829 / 2 ^ 50 \<le> b64 (7926335344172073 / 2 ^ 53 * e)"
    by (rule b64_fixed_ge [OF r1_fixed_p1])
  then have "2296835809958953 / 2 ^ 51 + 8421731303182829 / 2 ^ 50 \<le>
             2296835809958953 / 2 ^ 51 + b64 (7926335344172073 / 2 ^ 53 * e)" by linarith
  moreover have "(17 / 2 :: real) \<le> 2296835809958953 / 2 ^ 51 + 8421731303182829 / 2 ^ 50" by simp
  ultimately have "17 / 2 \<le> 2296835809958953 / 2 ^ 51 + b64 (7926335344172073 / 2 ^ 53 * e)"
    by linarith
  then show ?thesis by (rule b64_fixed_ge [OF b64_172])
qed

lemma inner_error:
  fixes e :: real
  shows "\<bar>b64 (7926335344172073 / 2 ^ 53 * e) - 7926335344172073 / 2 ^ 53 * e\<bar> \<le>
         1 / 2 ^ 60 + 7926335344172073 / 2 ^ 53 * \<bar>e\<bar> / 2 ^ 53"
proof -
  have "\<bar>7926335344172073 / 2 ^ 53 * e\<bar> = 7926335344172073 / 2 ^ 53 * \<bar>e\<bar>"
    by (simp add: abs_mult)
  then show ?thesis using b64_error [of "7926335344172073 / 2 ^ 53 * e"] by simp
qed

lemma step_ge_self:
  assumes "b64 e = e" "e \<le> 4785074604081148 / 2 ^ 49"
  shows "e \<le> b64 (2296835809958953 / 2 ^ 51 + b64 (7926335344172073 / 2 ^ 53 * e))"
proof -
  define r1 where "r1 = b64 (7926335344172073 / 2 ^ 53 * e)"
  define n where "n = \<bar>e\<bar>"
  have E: "\<bar>r1 - 7926335344172073 / 2 ^ 53 * e\<bar> \<le>
           1 / 2 ^ 60 + 7926335344172073 / 2 ^ 53 * n / 2 ^ 53"
    unfolding r1_def n_def by (rule inner_error)
  then have L: "7926335344172073 / 2 ^ 53 * e - (1 / 2 ^ 60 + 7926335344172073 / 2 ^ 53 * n / 2 ^ 53) \<le> r1"
    by linarith
  have "e \<le> 2296835809958953 / 2 ^ 51 + r1"
  proof (cases "0 \<le> e")
    case True
    then have "n = e" unfolding n_def by simp
    then show ?thesis using L assms(2) True by (simp add: field_simps)
  next
    case False
    then have "n = - e" unfolding n_def by simp
    then show ?thesis using L False by (simp add: field_simps)
  qed
  then show ?thesis unfolding r1_def by (rule b64_fixed_ge [OF assms(1)])
qed

lemma step_le_self:
  assumes "b64 e = e" "4785074604081157 / 2 ^ 49 \<le> e"
  shows "b64 (2296835809958953 / 2 ^ 51 + b64 (7926335344172073 / 2 ^ 53 * e)) \<le> e"
proof -
  define r1 where "r1 = b64 (7926335344172073 / 2 ^ 53 * e)"
  have "0 \<le> e" using assms(2) by (simp add: field_simps)
  then have n: "\<bar>e\<bar> = e" by simp
  have "\<bar>r1 - 7926335344172073 / 2 ^ 53 * e\<bar> \<le>
           1 / 2 ^ 60 + 7926335344172073 / 2 ^ 53 * e / 2 ^ 53"
    unfolding r1_def using inner_error [of e] unfolding n .
  then have L: "r1 \<le> 7926335344172073 / 2 ^ 53 * e + (1 / 2 ^ 60 + 7926335344172073 / 2 ^ 53 * e / 2 ^ 53)"
    by linarith
  have "2296835809958953 / 2 ^ 51 + r1 \<le> e"
    using L assms(2) by (simp add: field_simps)
  then show ?thesis unfolding r1_def by (rule b64_fixed_le [OF assms(1)])
qed

lemma step_bounds_below:
  assumes "b64 e = e" "e \<le> 17 / 2"
  shows "e \<le> b64 (2296835809958953 / 2 ^ 51 + b64 (7926335344172073 / 2 ^ 53 * e))"
    and "b64 (2296835809958953 / 2 ^ 51 + b64 (7926335344172073 / 2 ^ 53 * e)) \<le> 17 / 2"
proof -
  let ?g = "\<lambda>e. b64 (2296835809958953 / 2 ^ 51 + b64 (7926335344172073 / 2 ^ 53 * e))"
  have h: "(4785074604081152 / 2 ^ 49 :: real) = 17 / 2" by simp
  have mid: "b64 (2296835809958953 / 2 ^ 51 + b64 (7926335344172073 / 2 ^ 53 * (17 / 2))) = 17 / 2"
    using step_mid unfolding h .
  consider (eq) "e = 17 / 2" | (far) "e \<le> 4785074604081148 / 2 ^ 49"
    | (m3) "e = 4785074604081149 / 2 ^ 49" | (m2) "e = 4785074604081150 / 2 ^ 49"
    | (m1) "e = 4785074604081151 / 2 ^ 49"
    using below_cases [OF assms(1)] assms(2) by fastforce
  then have "e \<le> ?g e \<and> ?g e \<le> 17 / 2"
  proof cases
    case eq show ?thesis unfolding eq mid by simp
  next
    case far
    then have "e \<le> 4785074604081151 / 2 ^ 49" by simp
    then show ?thesis using step_ge_self [OF assms(1) far] step_le_target by blast
  next
    case m3 show ?thesis unfolding m3 step_m3 by simp
  next
    case m2 show ?thesis unfolding m2 step_m2 by simp
  next
    case m1 show ?thesis unfolding m1 step_m1 by simp
  qed
  then show "e \<le> ?g e" and "?g e \<le> 17 / 2" by blast+
qed

lemma step_bounds_above:
  assumes "b64 e = e" "17 / 2 \<le> e"
  shows "17 / 2 \<le> b64 (2296835809958953 / 2 ^ 51 + b64 (7926335344172073 / 2 ^ 53 * e))"
    and "b64 (2296835809958953 / 2 ^ 51 + b64 (7926335344172073 / 2 ^ 53 * e)) \<le> e"
proof -
  let ?g = "\<lambda>e. b64 (2296835809958953 / 2 ^ 51 + b64 (7926335344172073 / 2 ^ 53 * e))"
  have h: "(4785074604081152 / 2 ^ 49 :: real) = 17 / 2" by simp
  have mid: "b64 (2296835809958953 / 2 ^ 51 + b64 (7926335344172073 / 2 ^ 53 * (17 / 2))) = 17 / 2"
    using step_mid unfolding h .
  consider (eq) "e = 17 / 2" | (far) "4785074604081157 / 2 ^ 49 \<le> e"
    | (p1) "e = 4785074604081153 / 2 ^ 49" | (p2) "e = 4785074604081154 / 2 ^ 49"
    | (p3) "e = 4785074604081155 / 2 ^ 49" | (p4) "e = 4785074604081156 / 2 ^ 49"
    using above_cases [OF assms(1)] assms(2) by fastforce
  then have "17 / 2 \<le> ?g e \<and> ?g e \<le> e"
  proof cases
    case eq show ?thesis unfolding eq mid by simp
  next
    case far
    then have "4785074604081153 / 2 ^ 49 \<le> e" by simp
    then show ?thesis using step_le_self [OF assms(1) far] step_ge_target by blast
  next
    case p1 show ?thesis unfolding p1 step_p1 by simp
  next
    case p2 show ?thesis unfolding p2 step_p2 by simp
  next
    case p3 show ?thesis unfolding p3 step_p3 by simp
  next
    case p4 show ?thesis unfolding p4 step_p4 by simp
  qed
  then show "17 / 2 \<le> ?g e" and "?g e \<le> e" by blast+
qed

lemma ema_alpha_val: "EMA_ALPHA = 1080863910568919 / 2 ^ 53"
  unfolding EMA_ALPHA_def using b64_012 by simp

lemma ema_consts:
  "b64 (1 - EMA_ALPHA) = 7926335344172073 / 2 ^ 53"
  "b64 (EMA_ALPHA * (17 / 2)) = 2296835809958953 / 2 ^ 51"
  unfolding ema_alpha_val by (rule b64_088 b64_102)+

lemma observe_same:
  "observe st nm r nm =
     Some \<lparr>ema = b64 (b64 (EMA_ALPHA * r) +
                      b64 (b64 (1 - EMA_ALPHA) * (case st nm of None \<Rightarrow> r | Some s \<Rightarrow> ema s))),
           count = (case st nm of None \<Rightarrow> 0 | Some s \<Rightarrow> count s) + 1\<rparr>"
  by (simp add: observe_def Let_def split: option.splits)

lemma observe_target:
  "observe st nm (17 / 2) nm =
     Some \<lparr>ema = b64 (2296835809958953 / 2 ^ 51 +
                      b64 (7926335344172073 / 2 ^ 53 *
                           (case st nm of None \<Rightarrow> 17 / 2 | Some s \<Rightarrow> ema s))),
           count = (case st nm of None \<Rightarrow> 0 | Some s \<Rightarrow> count s) + 1\<rparr>"
  unfolding observe_same ema_consts ..

lemma is_b64_target: "is_b64 (17 / 2)"
  unfolding is_b64_def by simp

text \<open>The properties of one observation of 8.5, for an average that is a finite double.\<close>

lemma step_props:
  assumes "is_b64 e"
  defines "e' \<equiv> b64 (2296835809958953 / 2 ^ 51 + b64 (7926335344172073 / 2 ^ 53 * e))"
  shows "is_b64 e'"
    and "e \<le> 17 / 2 \<Longrightarrow> e \<le> e' \<and> e' \<le> 17 / 2"
    and "17 / 2 \<le> e \<Longrightarrow> 17 / 2 \<le> e' \<and> e' \<le> e"
    and "\<bar>e' - 17 / 2\<bar> \<le> \<bar>e - 17 / 2\<bar>"
    and "\<bar>e' - 17 / 2\<bar> \<le> 88 / 100 * \<bar>e - 17 / 2\<bar> + (\<bar>e\<bar> + 1) / 2 ^ 52"
    and "1 / 2 ^ 45 \<le> \<bar>e - 17 / 2\<bar> \<Longrightarrow> \<bar>e' - 17 / 2\<bar> < \<bar>e - 17 / 2\<bar>"
proof -
  have fx: "b64 e = e" and bd: "\<bar>e\<bar> < 2 ^ 1024" using assms(1) unfolding is_b64_def by blast+
  show lo: "e \<le> e' \<and> e' \<le> 17 / 2" if "e \<le> 17 / 2"
    unfolding e'_def using step_bounds_below [OF fx that] by blast
  show hi: "17 / 2 \<le> e' \<and> e' \<le> e" if "17 / 2 \<le> e"
    unfolding e'_def using step_bounds_above [OF fx that] by blast
  show nf: "\<bar>e' - 17 / 2\<bar> \<le> \<bar>e - 17 / 2\<bar>"
    using lo hi by (cases "e \<le> 17 / 2") auto
  have "(17 / 2 :: real) < 2 ^ 1024"
  proof -
    have "(17 / 2 :: real) < 2 ^ 4" by simp
    also have "\<dots> \<le> 2 ^ 1024" by (rule power_increasing) auto
    finally show ?thesis .
  qed
  then have "\<bar>e'\<bar> < 2 ^ 1024" using lo hi bd by (cases "e \<le> 17 / 2") auto
  then show "is_b64 e'" unfolding is_b64_def e'_def by simp
  show ct: "\<bar>e' - 17 / 2\<bar> \<le> 88 / 100 * \<bar>e - 17 / 2\<bar> + (\<bar>e\<bar> + 1) / 2 ^ 52"
    unfolding e'_def by (rule step_contract)
  show "\<bar>e' - 17 / 2\<bar> < \<bar>e - 17 / 2\<bar>" if far: "1 / 2 ^ 45 \<le> \<bar>e - 17 / 2\<bar>"
  proof -
    define d where "d = \<bar>e - 17 / 2\<bar>"
    define n where "n = \<bar>e\<bar>"
    have "n \<le> d + 17 / 2" unfolding n_def d_def by linarith
    moreover have "1 / 2 ^ 45 \<le> d" using far unfolding d_def .
    ultimately have "88 / 100 * d + (n + 1) / 2 ^ 52 < d" by (simp add: field_simps)
    then show ?thesis using ct unfolding d_def n_def by linarith
  qed
qed

lemma observe_target_some:
  assumes "st nm = Some s"
  shows "observe st nm (17 / 2) nm =
     Some \<lparr>ema = b64 (2296835809958953 / 2 ^ 51 + b64 (7926335344172073 / 2 ^ 53 * ema s)),
           count = count s + 1\<rparr>"
  unfolding observe_target using assms by simp

text \<open>Repeated observations of 8.5.\<close>

lemma observe_funpow:
  assumes "st nm = Some s" "is_b64 (ema s)"
  shows "\<exists>s'. ((\<lambda>t. observe t nm 8.5) ^^ k) st nm = Some s' \<and> is_b64 (ema s') \<and>
           count s' = count s + k \<and>
           (ema s \<le> 17 / 2 \<longrightarrow> ema s \<le> ema s' \<and> ema s' \<le> 17 / 2) \<and>
           (17 / 2 \<le> ema s \<longrightarrow> 17 / 2 \<le> ema s' \<and> ema s' \<le> ema s) \<and>
           \<bar>ema s' - 17 / 2\<bar> \<le> (88 / 100) ^ k * \<bar>ema s - 17 / 2\<bar> +
              25 / 3 * ((\<bar>ema s\<bar> + 19 / 2) / 2 ^ 52)"
proof (induction k)
  case 0
  have "0 \<le> 25 / 3 * ((\<bar>ema s\<bar> + 19 / 2) / 2 ^ 52)" by simp
  then show ?case using assms by simp
next
  case (Suc k)
  let ?f = "\<lambda>t. observe t nm 8.5"
  define c where "c = (\<bar>ema s\<bar> + 19 / 2) / 2 ^ 52"
  define a where "a = \<bar>ema s - 17 / 2\<bar>"
  define q where "q = (88 / 100 :: real) ^ k"
  obtain s' where s': "(?f ^^ k) st nm = Some s'" "is_b64 (ema s')" "count s' = count s + k"
    "ema s \<le> 17 / 2 \<longrightarrow> ema s \<le> ema s' \<and> ema s' \<le> 17 / 2"
    "17 / 2 \<le> ema s \<longrightarrow> 17 / 2 \<le> ema s' \<and> ema s' \<le> ema s"
    "\<bar>ema s' - 17 / 2\<bar> \<le> q * a + 25 / 3 * c"
    using Suc unfolding c_def a_def q_def by blast
  define e' where "e' = b64 (2296835809958953 / 2 ^ 51 + b64 (7926335344172073 / 2 ^ 53 * ema s'))"
  have nx: "(?f ^^ Suc k) st nm = Some \<lparr>ema = e', count = count s' + 1\<rparr>"
    unfolding e'_def using observe_target_some [of "(?f ^^ k) st" nm s', OF s'(1)] by simp
  note P = step_props [OF s'(2), folded e'_def]
  have "\<bar>ema s'\<bar> \<le> \<bar>ema s\<bar> + 17 / 2" using s'(4,5) by (cases "ema s \<le> 17 / 2") auto
  then have "(\<bar>ema s'\<bar> + 1) / 2 ^ 52 \<le> c" unfolding c_def by (intro divide_right_mono) auto
  then have "\<bar>e' - 17 / 2\<bar> \<le> 88 / 100 * \<bar>ema s' - 17 / 2\<bar> + c" using P(5) by linarith
  also have "\<dots> \<le> 88 / 100 * (q * a + 25 / 3 * c) + c" using s'(6) by simp
  also have "\<dots> = (88 / 100) ^ Suc k * a + 25 / 3 * c" unfolding q_def by (simp add: algebra_simps)
  finally have b: "\<bar>e' - 17 / 2\<bar> \<le> (88 / 100) ^ Suc k * a + 25 / 3 * c" .
  have "ema s \<le> 17 / 2 \<longrightarrow> ema s \<le> e' \<and> e' \<le> 17 / 2" using s'(4) P(2) by auto
  moreover have "17 / 2 \<le> ema s \<longrightarrow> 17 / 2 \<le> e' \<and> e' \<le> ema s" using s'(5) P(3) by auto
  ultimately show ?case using nx P(1) s'(3) b unfolding a_def c_def by simp
qed

text \<open>The update from the average 4: \<open>0.12 * 8.5 + 0.88 * 4\<close>, rounded.\<close>

lemma is_b64_four: "is_b64 4"
  unfolding is_b64_def using b64_eval [of 50 4 4503599627370496] by simp

lemma step_four:
  "b64 (2296835809958953 / 2 ^ 51 + b64 (7926335344172073 / 2 ^ 53 * 4)) =
     5111585577065513 / 2 ^ 50"
proof -
  have r1: "b64 (7926335344172073 / 2 ^ 53 * 4) = 7926335344172073 / 2 ^ 51"
    using b64_eval [of 51 "7926335344172073 / 2 ^ 53 * 4" 7926335344172073] by simp
  have r2: "b64 (2296835809958953 / 2 ^ 51 + 7926335344172073 / 2 ^ 51) = 5111585577065513 / 2 ^ 50"
    using b64_eval [of 50 "2296835809958953 / 2 ^ 51 + 7926335344172073 / 2 ^ 51" 5111585577065513]
    by simp
  show ?thesis unfolding r1 r2 by simp
qed

text \<open>
  C8: observing the score 8.5 for a sign whose moving average is a finite double never
  moves the average away from 8.5 and never past it: the new average lies between the
  old one and 8.5, and its distance from 8.5 is at most 0.88 times the old distance plus
  a rounding term, so it is strictly closer whenever the old distance is at least
  \<open>2 ^ - 45\<close>. A first observation of 8.5 sets the average to 8.5. Repeated
  observations give a monotone sequence of averages that stays on its side of 8.5, and
  after \<open>k\<close> of them the distance is at most \<open>0.88 ^ k\<close> times the initial one plus
  \<open>(\<bar>ema\<bar> + 10) / 2 ^ 48\<close>. After \<open>reset\<close> no sign has statistics and \<open>adjust\<close>
  returns every score unchanged, as on the empty table.
\<close>

theorem observe_target_approach:
  "(\<forall>s. st nm = Some s \<longrightarrow> is_b64 (ema s) \<longrightarrow>
      (\<exists>s'. observe st nm 8.5 nm = Some s' \<and> count s' = count s + 1 \<and> is_b64 (ema s') \<and>
            (ema s \<le> 8.5 \<longrightarrow> ema s \<le> ema s' \<and> ema s' \<le> 8.5) \<and>
            (8.5 \<le> ema s \<longrightarrow> 8.5 \<le> ema s' \<and> ema s' \<le> ema s) \<and>
            \<bar>ema s' - 8.5\<bar> \<le> \<bar>ema s - 8.5\<bar> \<and>
            \<bar>ema s' - 8.5\<bar> \<le> 0.88 * \<bar>ema s - 8.5\<bar> + (\<bar>ema s\<bar> + 1) / 2 ^ 52 \<and>
            (1 / 2 ^ 45 \<le> \<bar>ema s - 8.5\<bar> \<longrightarrow> \<bar>ema s' - 8.5\<bar> < \<bar>ema s - 8.5\<bar>))) \<and>
   (st nm = None \<longrightarrow> (\<exists>s'. observe st nm 8.5 nm = Some s' \<and> ema s' = 8.5 \<and> count s' = 1)) \<and>
   (\<forall>s k. st nm = Some s \<longrightarrow> is_b64 (ema s) \<longrightarrow>
      (\<exists>s' s''. ((\<lambda>t. observe t nm 8.5) ^^ k) st nm = Some s' \<and>
            ((\<lambda>t. observe t nm 8.5) ^^ Suc k) st nm = Some s'' \<and>
            (ema s \<le> 8.5 \<longrightarrow> ema s \<le> ema s' \<and> ema s' \<le> ema s'' \<and> ema s'' \<le> 8.5) \<and>
            (8.5 \<le> ema s \<longrightarrow> 8.5 \<le> ema s'' \<and> ema s'' \<le> ema s' \<and> ema s' \<le> ema s) \<and>
            \<bar>ema s' - 8.5\<bar> \<le> 0.88 ^ k * \<bar>ema s - 8.5\<bar> + (\<bar>ema s\<bar> + 10) / 2 ^ 48)) \<and>
   OnlineLearner_reset st nm = None \<and>
   adjust (OnlineLearner_reset st) nm v = v \<and>
   adjust (OnlineLearner_reset st) nm v = adjust Map.empty nm v"
proof (intro conjI allI impI)
  fix s assume s: "st nm = Some s" and d: "is_b64 (ema s)"
  define e' where "e' = b64 (2296835809958953 / 2 ^ 51 + b64 (7926335344172073 / 2 ^ 53 * ema s))"
  note P = step_props [OF d, folded e'_def]
  have o: "observe st nm 8.5 nm = Some \<lparr>ema = e', count = count s + 1\<rparr>"
    unfolding e'_def using observe_target_some [of st nm s, OF s] by simp
  show "\<exists>s'. observe st nm 8.5 nm = Some s' \<and> count s' = count s + 1 \<and> is_b64 (ema s') \<and>
            (ema s \<le> 8.5 \<longrightarrow> ema s \<le> ema s' \<and> ema s' \<le> 8.5) \<and>
            (8.5 \<le> ema s \<longrightarrow> 8.5 \<le> ema s' \<and> ema s' \<le> ema s) \<and>
            \<bar>ema s' - 8.5\<bar> \<le> \<bar>ema s - 8.5\<bar> \<and>
            \<bar>ema s' - 8.5\<bar> \<le> 0.88 * \<bar>ema s - 8.5\<bar> + (\<bar>ema s\<bar> + 1) / 2 ^ 52 \<and>
            (1 / 2 ^ 45 \<le> \<bar>ema s - 8.5\<bar> \<longrightarrow> \<bar>ema s' - 8.5\<bar> < \<bar>ema s - 8.5\<bar>)"
    unfolding o using P by simp
next
  assume "st nm = None"
  then have "observe st nm 8.5 nm =
     Some \<lparr>ema = b64 (2296835809958953 / 2 ^ 51 + b64 (7926335344172073 / 2 ^ 53 * (17 / 2))),
           count = 1\<rparr>"
    by (simp add: observe_target)
  moreover have "b64 (2296835809958953 / 2 ^ 51 + b64 (7926335344172073 / 2 ^ 53 * (17 / 2))) = 17 / 2"
    using step_bounds_below [of "17 / 2"] by simp
  ultimately show "\<exists>s'. observe st nm 8.5 nm = Some s' \<and> ema s' = 8.5 \<and> count s' = 1"
    by simp
next
  fix s k assume s: "st nm = Some s" and d: "is_b64 (ema s)"
  let ?f = "\<lambda>t. observe t nm 8.5"
  obtain s' where s': "(?f ^^ k) st nm = Some s'" "is_b64 (ema s')"
    "ema s \<le> 17 / 2 \<longrightarrow> ema s \<le> ema s' \<and> ema s' \<le> 17 / 2"
    "17 / 2 \<le> ema s \<longrightarrow> 17 / 2 \<le> ema s' \<and> ema s' \<le> ema s"
    "\<bar>ema s' - 17 / 2\<bar> \<le> (88 / 100) ^ k * \<bar>ema s - 17 / 2\<bar> +
              25 / 3 * ((\<bar>ema s\<bar> + 19 / 2) / 2 ^ 52)"
    using observe_funpow [of st nm s k, OF s d] by blast
  define e' where "e' = b64 (2296835809958953 / 2 ^ 51 + b64 (7926335344172073 / 2 ^ 53 * ema s'))"
  have nx: "(?f ^^ Suc k) st nm = Some \<lparr>ema = e', count = count s' + 1\<rparr>"
    unfolding e'_def using observe_target_some [of "(?f ^^ k) st" nm s', OF s'(1)] by simp
  note P = step_props [OF s'(2), folded e'_def]
  have "25 / 3 * ((\<bar>ema s\<bar> + 19 / 2) / 2 ^ 52) \<le> (\<bar>ema s\<bar> + 10) / 2 ^ 48"
    by (simp add: field_simps)
  then have b: "\<bar>ema s' - 17 / 2\<bar> \<le> (88 / 100) ^ k * \<bar>ema s - 17 / 2\<bar> + (\<bar>ema s\<bar> + 10) / 2 ^ 48"
    using s'(5) by linarith
  have "ema s \<le> 17 / 2 \<longrightarrow> ema s \<le> ema s' \<and> ema s' \<le> e' \<and> e' \<le> 17 / 2"
    using s'(3) P(2) by auto
  moreover have "17 / 2 \<le> ema s \<longrightarrow> 17 / 2 \<le> e' \<and> e' \<le> ema s' \<and> ema s' \<le> ema s"
    using s'(4) P(3) by auto
  ultimately show "\<exists>s' s''. (?f ^^ k) st nm = Some s' \<and> (?f ^^ Suc k) st nm = Some s'' \<and>
            (ema s \<le> 8.5 \<longrightarrow> ema s \<le> ema s' \<and> ema s' \<le> ema s'' \<and> ema s'' \<le> 8.5) \<and>
            (8.5 \<le> ema s \<longrightarrow> 8.5 \<le> ema s'' \<and> ema s'' \<le> ema s' \<and> ema s' \<le> ema s) \<and>
            \<bar>ema s' - 8.5\<bar> \<le> 0.88 ^ k * \<bar>ema s - 8.5\<bar> + (\<bar>ema s\<bar> + 10) / 2 ^ 48"
    unfolding nx s'(1) using b by simp
next
  show "OnlineLearner_reset st nm = None" by (simp add: OnlineLearner_reset_def)
  show "adjust (OnlineLearner_reset st) nm v = v"
    by (simp add: OnlineLearner_reset_def adjust_def)
  show "adjust (OnlineLearner_reset st) nm v = adjust Map.empty nm v"
    by (simp add: OnlineLearner_reset_def)
qed

theorem observe_target_approach_witness:
  "is_b64 4 \<and>
   observe (Map.empty(''A'' \<mapsto> \<lparr>ema = 4, count = 1\<rparr>)) ''A'' 8.5 ''A'' =
     Some \<lparr>ema = 5111585577065513 / 2 ^ 50, count = 2\<rparr> \<and>
   (4 :: real) \<le> 5111585577065513 / 2 ^ 50 \<and> (5111585577065513 / 2 ^ 50 :: real) \<le> 8.5 \<and>
   \<bar>5111585577065513 / 2 ^ 50 - 8.5\<bar> < \<bar>4 - (8.5::real)\<bar> \<and>
   observe Map.empty ''A'' 8.5 ''A'' = Some \<lparr>ema = 8.5, count = 1\<rparr> \<and>
   adjust (OnlineLearner_reset (Map.empty(''A'' \<mapsto> \<lparr>ema = 4, count = 9\<rparr>))) ''A'' 4 = 4"
proof -
  have o: "observe (Map.empty(''A'' \<mapsto> \<lparr>ema = 4, count = 1\<rparr>)) ''A'' (17 / 2) ''A'' =
     Some \<lparr>ema = 5111585577065513 / 2 ^ 50, count = 2\<rparr>"
    using step_four by (simp add: observe_target)
  have e: "observe Map.empty ''A'' (17 / 2) ''A'' = Some \<lparr>ema = 17 / 2, count = 1\<rparr>"
    using step_mid by (simp add: observe_target)
  show ?thesis
    using o e is_b64_four
      observe_target_approach [of "Map.empty(''A'' \<mapsto> \<lparr>ema = 4, count = 1\<rparr>)" "''A''" 4]
      observe_target_approach [of "Map.empty" "''A''" 4]
      observe_target_approach [of "Map.empty(''A'' \<mapsto> \<lparr>ema = 4, count = 9\<rparr>)" "''A''" 4]
    by simp
qed

text \<open>
  The approach is not strict down to 8.5: within a few quanta of 8.5 the rounded update
  returns its argument. The double just below 8.5, \<^verbatim>\<open>8.499999999999998\<close>, is left
  unchanged by an observation of 8.5.
\<close>

theorem observe_target_stall_counterexample:
  "is_b64 (4785074604081151 / 2 ^ 49) \<and>
   (4785074604081151 / 2 ^ 49 :: real) \<noteq> 8.5 \<and>
   observe (Map.empty(''A'' \<mapsto> \<lparr>ema = 4785074604081151 / 2 ^ 49, count = 1\<rparr>)) ''A'' 8.5 ''A'' =
     Some \<lparr>ema = 4785074604081151 / 2 ^ 49, count = 2\<rparr> \<and>
   \<not> \<bar>4785074604081151 / 2 ^ 49 - 8.5\<bar> < \<bar>4785074604081151 / 2 ^ 49 - (8.5::real)\<bar>"
proof -
  have "b64 (4785074604081151 / 2 ^ 49) = 4785074604081151 / 2 ^ 49"
    using b64_eval [of 49 "4785074604081151 / 2 ^ 49" 4785074604081151] by simp
  then have "is_b64 (4785074604081151 / 2 ^ 49)" unfolding is_b64_def by simp
  moreover have "observe (Map.empty(''A'' \<mapsto> \<lparr>ema = 4785074604081151 / 2 ^ 49, count = 1\<rparr>)) ''A'' 8.5 ''A'' =
     Some \<lparr>ema = 4785074604081151 / 2 ^ 49, count = 2\<rparr>"
    using step_m1 by (simp add: observe_target)
  ultimately show ?thesis by simp
qed

section \<open>Temporal smoother\<close>

text \<open>The tables built by the \<^verbatim>\<open>forEach\<close>: lookups, keys, and their values.\<close>

lemma entry_of_accum:
  "entry_of (accum t k v) k' = (if k' = k then entry_of t k + v else entry_of t k')"
  by (induction t) auto

lemma map_fst_accum:
  "map fst (accum t k v) = (if k \<in> fst ` set t then map fst t else map fst t @ [k])"
  by (induction t) (force simp: image_iff)+

lemma keys_accum: "fst ` set (accum t k v) = insert k (fst ` set t)"
proof -
  have "set (map fst (accum t k v)) = insert k (set (map fst t))"
    unfolding map_fst_accum by (auto simp: image_iff)
  then show ?thesis by simp
qed

lemma distinct_accum: "distinct (map fst t) \<Longrightarrow> distinct (map fst (accum t k v))"
  by (simp add: map_fst_accum)

lemma entry_of_mem: "k \<in> fst ` set t \<Longrightarrow> (k, entry_of t k) \<in> set t"
proof (induction t)
  case Nil
  then show ?case by simp
next
  case (Cons p t)
  obtain k' u where p: "p = (k', u)" by (cases p)
  show ?case
  proof (cases "k' = k")
    case True
    then show ?thesis by (simp add: p)
  next
    case False
    then have "k \<in> fst ` set t" using Cons.prems by (auto simp: p)
    then show ?thesis using Cons.IH False by (simp add: p)
  qed
qed

lemma mem_entry_of: "distinct (map fst t) \<Longrightarrow> (k, v) \<in> set t \<Longrightarrow> entry_of t k = v"
proof (induction t)
  case Nil
  then show ?case by simp
next
  case (Cons p t)
  obtain k' u where p: "p = (k', u)" by (cases p)
  show ?case
  proof (cases "k' = k")
    case True
    then have "k \<notin> fst ` set t" using Cons.prems(1) by (simp add: p)
    then have "(k, v) \<notin> set t" by (metis fst_conv image_eqI)
    then show ?thesis using Cons.prems(2) True by (simp add: p)
  next
    case False
    then show ?thesis using Cons by (simp add: p)
  qed
qed

lemma tally_votes:
  "entry_of (fst (tally hs i (vs, cs))) nm =
     entry_of vs nm + (\<Sum>j<length hs. if name (hs ! j) = nm then real (i + j) + 1 else 0)"
proof (induction hs arbitrary: i vs cs)
  case Nil
  then show ?case by simp
next
  case (Cons h hs)
  show ?case
    by (simp add: Let_def Cons.IH entry_of_accum sum.lessThan_Suc_shift add_ac
        del: sum.lessThan_Suc cong: if_cong)
qed

lemma tally_conf:
  "entry_of (snd (tally hs i (vs, cs))) nm =
     entry_of cs nm +
     (\<Sum>j<length hs. if name (hs ! j) = nm then confidence (hs ! j) * (real (i + j) + 1) else 0)"
proof (induction hs arbitrary: i vs cs)
  case Nil
  then show ?case by simp
next
  case (Cons h hs)
  show ?case
    by (simp add: Let_def Cons.IH entry_of_accum sum.lessThan_Suc_shift add_ac
        del: sum.lessThan_Suc cong: if_cong)
qed

lemma tally_keys:
  "fst ` set (fst (tally hs i (vs, cs))) = fst ` set vs \<union> name ` set hs"
  by (induction hs arbitrary: i vs cs) (simp_all add: Let_def keys_accum)

lemma tally_distinct:
  "distinct (map fst vs) \<Longrightarrow> distinct (map fst (fst (tally hs i (vs, cs))))"
  by (induction hs arbitrary: i vs cs) (simp_all add: Let_def distinct_accum)

text \<open>The selection loop keeps the largest eligible vote seen so far.\<close>

lemma pick_invariant:
  "pick es T (tn, tv) = (tn', tv') \<Longrightarrow>
   tv \<le> tv' \<and>
   (\<forall>(k, v) \<in> set es. MIN_PCT \<le> v / T \<longrightarrow> v \<le> tv') \<and>
   ((tn', tv') = (tn, tv) \<or>
    (\<exists>k. tn' = Some k \<and> (k, tv') \<in> set es \<and> MIN_PCT \<le> tv' / T \<and> tv < tv'))"
proof (induction es arbitrary: tn tv)
  case Nil
  then show ?case by simp
next
  case (Cons p es)
  obtain nm v where p: "p = (nm, v)" by (cases p)
  show ?case
  proof (cases "MIN_PCT \<le> v / T \<and> tv < v")
    case True
    then have "pick es T (Some nm, v) = (tn', tv')"
      using Cons.prems by (simp add: p Let_def)
    from Cons.IH [OF this] True show ?thesis
      by (auto simp: p)
  next
    case False
    then have "pick es T (tn, tv) = (tn', tv')"
      using Cons.prems by (auto simp: p Let_def)
    from Cons.IH [OF this] False show ?thesis
      by (auto simp: p)
  qed
qed

lemma votes_table:
  "entry_of (fst (tally h 0 ([], []))) nm = spec_votes h nm"
  by (simp add: tally_votes spec_votes_def cong: if_cong)

lemma conf_table:
  "entry_of (snd (tally h 0 ([], []))) nm = spec_conf_sum h nm"
  by (simp add: tally_conf spec_conf_sum_def cong: if_cong)

lemma votes_table_keys: "fst ` set (fst (tally h 0 ([], []))) = name ` set h"
  by (simp add: tally_keys)

lemma votes_table_distinct: "distinct (map fst (fst (tally h 0 ([], []))))"
  by (simp add: tally_distinct)

lemma votes_table_mem:
  "(k, v) \<in> set (fst (tally h 0 ([], []))) \<longleftrightarrow> k \<in> name ` set h \<and> v = spec_votes h k"
proof
  assume m: "(k, v) \<in> set (fst (tally h 0 ([], [])))"
  then have "k \<in> fst ` set (fst (tally h 0 ([], [])))" by (metis fst_conv image_eqI)
  moreover have "entry_of (fst (tally h 0 ([], []))) k = v"
    using mem_entry_of [OF votes_table_distinct m] .
  ultimately show "k \<in> name ` set h \<and> v = spec_votes h k"
    by (simp add: votes_table_keys votes_table)
next
  assume "k \<in> name ` set h \<and> v = spec_votes h k"
  then show "(k, v) \<in> set (fst (tally h 0 ([], [])))"
    using entry_of_mem [of k "fst (tally h 0 ([], []))"]
    by (simp add: votes_table_keys votes_table)
qed

lemma spec_votes_nonneg: "0 \<le> spec_votes h nm"
  by (simp add: spec_votes_def sum_nonneg)

lemma spec_votes_absent: "nm \<notin> name ` set h \<Longrightarrow> spec_votes h nm = 0"
  by (auto simp: spec_votes_def intro!: sum.neutral)

lemma spec_total_weight_pos: "h \<noteq> [] \<Longrightarrow> 0 < spec_total_weight h"
  by (simp add: spec_total_weight_def)

lemma spec_eligible_present: "spec_eligible h nm \<Longrightarrow> nm \<in> name ` set h"
proof (rule ccontr)
  assume e: "spec_eligible h nm" and n: "nm \<notin> name ` set h"
  have "spec_votes h nm = 0" using n by (rule spec_votes_absent)
  then show False using e by (simp add: spec_eligible_def)
qed

lemma totalW_eq: "real (length h * (length h + 1)) / 2 = spec_total_weight h"
  by (simp add: spec_total_weight_def algebra_simps)

lemma best_unfold:
  "best h =
     (if length h < 2 then None
      else case fst (pick (fst (tally h 0 ([], []))) (spec_total_weight h) (None, 0)) of
             None \<Rightarrow> None
           | Some nm \<Rightarrow>
               if nm = [] then None
               else Some \<lparr>name = nm,
                          confidence = min 1 (spec_conf_sum h nm / spec_votes h nm)\<rparr>)"
  unfolding best_def Let_def totalW_eq case_prod_beta
  by (simp add: votes_table conf_table split: option.splits)

lemma pick_result:
  assumes "2 \<le> length h"
    and "pick (fst (tally h 0 ([], []))) (spec_total_weight h) (None, 0) = (tn, tv)"
  shows "(tn = None \<longrightarrow> (\<forall>nm. \<not> spec_eligible h nm)) \<and>
         (\<forall>k. tn = Some k \<longrightarrow>
            spec_eligible h k \<and> (\<forall>nm. spec_eligible h nm \<longrightarrow> spec_votes h nm \<le> spec_votes h k))"
proof -
  let ?T = "spec_total_weight h"
  have T: "0 < ?T" using assms(1) by (intro spec_total_weight_pos) auto
  from pick_invariant [OF assms(2)]
  have le: "\<forall>(k, v) \<in> set (fst (tally h 0 ([], []))). MIN_PCT \<le> v / ?T \<longrightarrow> v \<le> tv"
    and alt: "(tn, tv) = (None, 0) \<or>
      (\<exists>k. tn = Some k \<and> (k, tv) \<in> set (fst (tally h 0 ([], []))) \<and> MIN_PCT \<le> tv / ?T \<and> 0 < tv)"
    by auto
  have bound: "spec_votes h nm \<le> tv" if "spec_eligible h nm" for nm
  proof -
    have "(nm, spec_votes h nm) \<in> set (fst (tally h 0 ([], [])))"
      using spec_eligible_present [OF that] by (simp add: votes_table_mem)
    then show ?thesis using le that by (auto simp: spec_eligible_def MIN_PCT_def)
  qed
  have pos: "0 < spec_votes h nm" if "spec_eligible h nm" for nm
  proof -
    have "0 < 0.48 * ?T" using T by simp
    also have "\<dots> \<le> spec_votes h nm"
      using that T by (simp add: spec_eligible_def field_simps)
    finally show ?thesis .
  qed
  show ?thesis
  proof (intro conjI allI impI)
    fix nm assume "tn = None"
    then have "tv = 0" using alt by auto
    then show "\<not> spec_eligible h nm" using bound [of nm] pos [of nm] by auto
  next
    fix k assume "tn = Some k"
    then have k: "(k, tv) \<in> set (fst (tally h 0 ([], [])))" "MIN_PCT \<le> tv / ?T"
      using alt by auto
    then have tv: "tv = spec_votes h k" by (simp add: votes_table_mem)
    show "spec_eligible h k" using k(2) by (simp add: spec_eligible_def MIN_PCT_def tv)
  next
    fix k nm assume "tn = Some k" and e: "spec_eligible h nm"
    then have k: "(k, tv) \<in> set (fst (tally h 0 ([], [])))"
      using alt by auto
    then have tv: "tv = spec_votes h k" by (simp add: votes_table_mem)
    show "spec_votes h nm \<le> spec_votes h k" using bound [OF e] by (simp add: tv)
  qed
qed

text \<open>Nine pushes fill the window.\<close>

lemma length_push: "length w \<le> 9 \<Longrightarrow> length (push w nm c) \<le> 9"
  by (simp add: push_def WINDOW_def Let_def)

lemma fold_push_drop:
  "length w \<le> 9 \<Longrightarrow>
   fold (\<lambda>c v. push v nm c) cs w =
     drop (length w + length cs - 9) (w @ map (\<lambda>c. \<lparr>name = nm, confidence = c\<rparr>) cs)"
proof (induction cs arbitrary: w)
  case Nil
  then show ?case by simp
next
  case (Cons c cs)
  let ?mk = "\<lambda>c. \<lparr>name = nm, confidence = c\<rparr>"
  let ?w1 = "push w nm c"
  let ?all = "w @ map ?mk (c # cs)"
  have l1: "length ?w1 \<le> 9" using Cons.prems by (rule length_push)
  have step: "fold (\<lambda>c v. push v nm c) (c # cs) w =
              drop (length ?w1 + length cs - 9) (?w1 @ map ?mk cs)"
    using Cons.IH [OF l1] by simp
  show ?case
  proof (cases "length w = 9")
    case True
    then have "w \<noteq> []" by auto
    then have w1: "?w1 @ map ?mk cs = drop 1 ?all"
      using True by (simp add: push_def WINDOW_def Let_def drop_Suc)
    have n1: "length ?w1 + length cs - 9 = length cs"
      using True by (simp add: push_def WINDOW_def Let_def)
    have n2: "length w + length (c # cs) - 9 = length cs + 1"
      using True by simp
    show ?thesis unfolding step n1 n2 w1 by (simp only: drop_drop)
  next
    case False
    then have lt: "length w < 9" using Cons.prems by simp
    then have w1: "?w1 = w @ [?mk c]"
      by (simp add: push_def WINDOW_def Let_def)
    show ?thesis unfolding step by (simp add: w1)
  qed
qed

lemma nine_pushes:
  assumes "length w \<le> 9" "length cs = 9"
  shows "fold (\<lambda>c v. push v nm c) cs w = map (\<lambda>c. \<lparr>name = nm, confidence = c\<rparr>) cs"
  using fold_push_drop [OF assms(1), of nm cs] assms(2) by simp

lemma triangular: "(\<Sum>i<n. real i + 1) = real n * (real n + 1) / 2"
  by (induction n) (simp_all add: algebra_simps)

lemma spec_votes_single:
  assumes "\<forall>e \<in> set h. name e = nm"
  shows "spec_votes h nm = spec_total_weight h"
proof -
  have "spec_votes h nm = (\<Sum>i<length h. real i + 1)"
    unfolding spec_votes_def using assms by (intro sum.cong) auto
  then show ?thesis by (simp add: triangular spec_total_weight_def)
qed

lemma best_Some_iff:
  assumes "2 \<le> length h"
  shows "best h = Some r \<longleftrightarrow>
         (\<exists>k. fst (pick (fst (tally h 0 ([], []))) (spec_total_weight h) (None, 0)) = Some k \<and>
              k \<noteq> [] \<and>
              r = \<lparr>name = k, confidence = min 1 (spec_conf_sum h k / spec_votes h k)\<rparr>)"
  using assms by (auto simp: best_unfold split: option.splits)

text \<open>
  C2: \<open>best\<close> returns none on a window of fewer than 2 entries. When it returns a
  name, that name's votes (entries weighted 1 for the oldest up to \<open>n\<close> for the newest)
  are at least 0.48 of the total weight \<open>n(n+1)/2\<close>, no eligible name has more votes,
  and the confidence is the winner's vote-weighted average confidence capped at 1. It
  does return a name whenever some name is eligible. After 9 pushes of one name onto a
  window (of at most 9 entries, as every window is) it returns that name with
  confidence at most 1. Names are sign identifiers, so not the empty string, which
  \<^verbatim>\<open>!topName\<close> would take for no winner.
\<close>

theorem best_weighted_vote:
  "(length h < 2 \<longrightarrow> best h = None) \<and>
   (\<forall>r. best h = Some r \<longrightarrow>
      2 \<le> length h \<and>
      spec_eligible h (name r) \<and>
      (\<forall>nm. spec_eligible h nm \<longrightarrow> spec_votes h nm \<le> spec_votes h (name r)) \<and>
      confidence r = min 1 (spec_conf_sum h (name r) / spec_votes h (name r)) \<and>
      confidence r \<le> 1) \<and>
   (2 \<le> length h \<and> (\<forall>e \<in> set h. name e \<noteq> []) \<and> (\<exists>nm. spec_eligible h nm) \<longrightarrow>
      best h \<noteq> None) \<and>
   (length h0 \<le> 9 \<and> length cs = 9 \<and> nm0 \<noteq> [] \<longrightarrow>
      (\<exists>r. best (fold (\<lambda>c w. push w nm0 c) cs h0) = Some r \<and>
           name r = nm0 \<and> confidence r \<le> 1))"
proof -
  have short: "best w = None" if "length w < 2" for w
    using that by (simp add: best_def)
  have sound: "2 \<le> length w \<and>
      spec_eligible w (name r) \<and>
      (\<forall>nm. spec_eligible w nm \<longrightarrow> spec_votes w nm \<le> spec_votes w (name r)) \<and>
      confidence r = min 1 (spec_conf_sum w (name r) / spec_votes w (name r)) \<and>
      confidence r \<le> 1" if b: "best w = Some r" for w r
  proof -
    have l: "2 \<le> length w" using b short [of w] by (cases "length w < 2") auto
    obtain tn tv where p: "pick (fst (tally w 0 ([], []))) (spec_total_weight w) (None, 0) = (tn, tv)"
      by (cases "pick (fst (tally w 0 ([], []))) (spec_total_weight w) (None, 0)")
    from b obtain k where k: "tn = Some k"
      "r = \<lparr>name = k, confidence = min 1 (spec_conf_sum w k / spec_votes w k)\<rparr>"
      using best_Some_iff [OF l, of r] p by auto
    from pick_result [OF l p] k(1)
    have "spec_eligible w k"
      "\<forall>nm. spec_eligible w nm \<longrightarrow> spec_votes w nm \<le> spec_votes w k"
      by auto
    then show ?thesis using l k(2) by simp
  qed
  have complete: "best w \<noteq> None"
    if l: "2 \<le> length w" and ne: "\<forall>e \<in> set w. name e \<noteq> []" and el: "spec_eligible w nm"
    for w nm
  proof -
    obtain tn tv where p: "pick (fst (tally w 0 ([], []))) (spec_total_weight w) (None, 0) = (tn, tv)"
      by (cases "pick (fst (tally w 0 ([], []))) (spec_total_weight w) (None, 0)")
    from pick_result [OF l p] el obtain k where k: "tn = Some k" "spec_eligible w k"
      by (cases tn) auto
    have "k \<in> name ` set w" using k(2) by (rule spec_eligible_present)
    then have "k \<noteq> []" using ne by auto
    then show ?thesis using best_Some_iff [OF l] p k(1) by simp
  qed
  have nine: "\<exists>r. best (fold (\<lambda>c w. push w nm0 c) cs h0) = Some r \<and>
           name r = nm0 \<and> confidence r \<le> 1"
    if "length h0 \<le> 9" "length cs = 9" "nm0 \<noteq> []"
  proof -
    let ?w = "fold (\<lambda>c w. push w nm0 c) cs h0"
    have w: "?w = map (\<lambda>c. \<lparr>name = nm0, confidence = c\<rparr>) cs"
      using that(1,2) by (rule nine_pushes)
    have l: "2 \<le> length ?w" unfolding w using that(2) by simp
    have all: "\<forall>e \<in> set ?w. name e = nm0" unfolding w by auto
    have "spec_votes ?w nm0 = spec_total_weight ?w" using all by (rule spec_votes_single)
    moreover have "0 < spec_total_weight ?w" using l by (intro spec_total_weight_pos) auto
    ultimately have el: "spec_eligible ?w nm0" by (simp add: spec_eligible_def)
    have "best ?w \<noteq> None" using l _ el by (rule complete) (use all that(3) in auto)
    then obtain r where r: "best ?w = Some r" by auto
    from sound [OF r] have "spec_eligible ?w (name r)" "confidence r \<le> 1" by auto
    then have "name r \<in> name ` set ?w" by (auto dest: spec_eligible_present)
    then have "name r = nm0" using all by auto
    then show ?thesis using r \<open>confidence r \<le> 1\<close> by auto
  qed
  show ?thesis using short sound complete nine by blast
qed

theorem best_weighted_vote_witness:
  "best [\<lparr>name = ''A'', confidence = 0.9\<rparr>] = None \<and>
   best [\<lparr>name = ''A'', confidence = 0.9\<rparr>, \<lparr>name = ''B'', confidence = 0.8\<rparr>,
         \<lparr>name = ''A'', confidence = 0.7\<rparr>] = Some \<lparr>name = ''A'', confidence = 0.75\<rparr> \<and>
   spec_eligible [\<lparr>name = ''A'', confidence = 0.9\<rparr>, \<lparr>name = ''B'', confidence = 0.8\<rparr>,
         \<lparr>name = ''A'', confidence = 0.7\<rparr>] ''A'' \<and>
   spec_votes [\<lparr>name = ''A'', confidence = 0.9\<rparr>, \<lparr>name = ''B'', confidence = 0.8\<rparr>,
         \<lparr>name = ''A'', confidence = 0.7\<rparr>] ''B'' \<le> 4 \<and>
   (\<exists>r. best (fold (\<lambda>c w. push w ''Z'' c) [0.9, 0.8, 0.7, 0.9, 1, 0.6, 0.9, 0.9, 0.5]
              [\<lparr>name = ''A'', confidence = 0.9\<rparr>, \<lparr>name = ''B'', confidence = 0.8\<rparr>]) = Some r \<and>
        name r = ''Z'' \<and> confidence r \<le> 1)"
proof -
  let ?h = "[\<lparr>name = ''A'', confidence = 0.9\<rparr>, \<lparr>name = ''B'', confidence = 0.8\<rparr>,
         \<lparr>name = ''A'', confidence = 0.7\<rparr>] :: opinion list"
  let ?pre = "[\<lparr>name = ''A'', confidence = 0.9\<rparr>, \<lparr>name = ''B'', confidence = 0.8\<rparr>]
         :: opinion list"
  let ?cs = "[0.9, 0.8, 0.7, 0.9, 1, 0.6, 0.9, 0.9, 0.5 :: real]"
  note one = best_weighted_vote [of "[\<lparr>name = ''A'', confidence = 0.9\<rparr>] :: opinion list"
      ?pre ?cs "''Z''"]
  note three = best_weighted_vote [of ?h ?pre ?cs "''Z''"]
  have b: "best ?h = Some \<lparr>name = ''A'', confidence = 0.75\<rparr>"
    by (simp add: best_def MIN_PCT_def)
  have v: "spec_votes ?h ''A'' = 4" "spec_votes ?h ''B'' = 2"
    by (simp_all add: spec_votes_def lessThan_Suc numeral_3_eq_3)
  have "best [\<lparr>name = ''A'', confidence = 0.9\<rparr>] = None" using one by simp
  moreover have "spec_eligible ?h ''A''" using three b by fastforce
  moreover have "spec_eligible ?h ''A'' \<longrightarrow> spec_votes ?h ''B'' \<le> 4"
    using v by simp
  moreover have "\<exists>r. best (fold (\<lambda>c w. push w ''Z'' c) ?cs ?pre) = Some r \<and>
        name r = ''Z'' \<and> confidence r \<le> 1"
    using three by simp
  ultimately show ?thesis using b by blast
qed

section \<open>Gesture engine\<close>

lemma learner_detect: "learner (snd (detect est e lms w h th)) = learner e"
  by (simp add: detect_def Let_def split: option.splits)

lemma learner_fold_detect:
  "learner (fold (\<lambda>(lms, w, h, th) e'. snd (detect est e' lms w h th)) frames e) = learner e"
  by (induction frames arbitrary: e) (auto simp: learner_detect)

text \<open>
  C9: \<open>reset\<close> of the engine empties the smoother's window, so that \<open>best\<close> returns
  none, and leaves the learner's table as it is; this holds in every state, in particular
  after any sequence of detections, which never change the learner's table either.
\<close>

theorem engine_reset_clears_window_only:
  "history (GestureEngine_reset e) = [] \<and>
   best (history (GestureEngine_reset e)) = None \<and>
   learner (GestureEngine_reset e) = learner e \<and>
   best (history (GestureEngine_reset
     (fold (\<lambda>(lms, w, h, th) e'. snd (detect est e' lms w h th)) frames e))) = None \<and>
   learner (GestureEngine_reset
     (fold (\<lambda>(lms, w, h, th) e'. snd (detect est e' lms w h th)) frames e)) =
     learner (fold (\<lambda>(lms, w, h, th) e'. snd (detect est e' lms w h th)) frames e) \<and>
   learner (GestureEngine_reset
     (fold (\<lambda>(lms, w, h, th) e'. snd (detect est e' lms w h th)) frames e)) = learner e"
  by (simp add: GestureEngine_reset_def TemporalSmoother_reset_def best_def learner_fold_detect)

text \<open>
  Nine frames of the 70-degree \<open>L\<close> hand with a failing estimator: each frame falls back
  to the geometric opinion and pushes \<open>L\<close> with confidence 0.9.
\<close>

lemma detect_fallback_L:
  assumes "ready e" "learner e ''L'' = None"
  shows "snd (detect (\<lambda>kp th. None) e (Some hand_angle70) w h th) =
           e\<lparr>history := push (history e) ''L'' 0.9\<rparr>"
proof -
  have l: "\<not> length hand_angle70 < 21" by (simp add: hand_angle70_def hand_angle_def)
  have r: "resolve (Some []) (Some hand_angle70) = None" by (simp add: resolve_def)
  have a: "adjust (learner e) ''L'' 9 = 9" using assms(2) by (simp add: adjust_def)
  show ?thesis
    using assms(1) l
    by (simp add: detect_def Let_def r classify_hand_angle70 a split: option.splits)
qed

lemma nine_detections:
  assumes "ready e" "learner e ''L'' = None" "history e = []"
  shows "history (((\<lambda>e'. snd (detect (\<lambda>kp th. None) e' (Some hand_angle70) 640 480 7)) ^^ 9) e) =
           replicate 9 \<lparr>name = ''L'', confidence = 0.9\<rparr>"
proof -
  let ?f = "\<lambda>e'. snd (detect (\<lambda>kp th. None) e' (Some hand_angle70) 640 480 7)"
  have inv: "ready ((?f ^^ n) e) \<and> learner ((?f ^^ n) e) ''L'' = None \<and>
             history ((?f ^^ n) e) = ((\<lambda>v. push v ''L'' 0.9) ^^ n) []" for n
  proof (induction n)
    case 0
    then show ?case using assms by simp
  next
    case (Suc n)
    then show ?case by (simp add: detect_fallback_L)
  qed
  have "((\<lambda>v. push v ''L'' 0.9) ^^ 9) [] = replicate 9 \<lparr>name = ''L'', confidence = 0.9\<rparr>"
    by (simp add: eval_nat_numeral push_def WINDOW_def Let_def)
  then show ?thesis using inv [of 9] by simp
qed

theorem engine_reset_clears_window_only_witness:
  "best (history (fold (\<lambda>(lms, w, h, th) e'. snd (detect (\<lambda>kp th. None) e' lms w h th))
      (replicate 9 (Some hand_angle70, 640, 480, 7))
      \<lparr>ready = True, learner = Map.empty(''A'' \<mapsto> \<lparr>ema = 7, count = 9\<rparr>), history = []\<rparr>)) =
     Some \<lparr>name = ''L'', confidence = 0.9\<rparr> \<and>
   best (history (GestureEngine_reset
     (fold (\<lambda>(lms, w, h, th) e'. snd (detect (\<lambda>kp th. None) e' lms w h th))
      (replicate 9 (Some hand_angle70, 640, 480, 7))
      \<lparr>ready = True, learner = Map.empty(''A'' \<mapsto> \<lparr>ema = 7, count = 9\<rparr>), history = []\<rparr>))) =
     None \<and>
   learner (GestureEngine_reset
     (fold (\<lambda>(lms, w, h, th) e'. snd (detect (\<lambda>kp th. None) e' lms w h th))
      (replicate 9 (Some hand_angle70, 640, 480, 7))
      \<lparr>ready = True, learner = Map.empty(''A'' \<mapsto> \<lparr>ema = 7, count = 9\<rparr>), history = []\<rparr>)) ''A'' =
     Some \<lparr>ema = 7, count = 9\<rparr>"
proof -
  let ?e = "\<lparr>ready = True, learner = Map.empty(''A'' \<mapsto> \<lparr>ema = 7, count = 9\<rparr>), history = []\<rparr>"
  let ?run = "fold (\<lambda>(lms, w, h, th) e'. snd (detect (\<lambda>kp th. None) e' lms w h th))
      (replicate 9 (Some hand_angle70, 640, 480, 7)) ?e"
  have run: "?run = ((\<lambda>e'. snd (detect (\<lambda>kp th. None) e' (Some hand_angle70) 640 480 7)) ^^ 9) ?e"
    by (simp only: fold_replicate) simp
  have h: "history ?run = replicate 9 \<lparr>name = ''L'', confidence = 0.9\<rparr>"
    unfolding run by (rule nine_detections) simp_all
  have b: "best (history ?run) = Some \<lparr>name = ''L'', confidence = 0.9\<rparr>"
    unfolding h by (simp add: eval_nat_numeral best_def MIN_PCT_def)
  note T = engine_reset_clears_window_only
    [of ?e "\<lambda>kp th. None" "replicate 9 (Some hand_angle70, 640, 480, 7)"]
  have n: "best (history (GestureEngine_reset ?run)) = None"
    using T by blast
  have "learner (GestureEngine_reset ?run) = learner ?e"
    using T by blast
  then have l: "learner (GestureEngine_reset ?run) ''A'' = Some \<lparr>ema = 7, count = 9\<rparr>"
    by simp
  show ?thesis using b n l by blast
qed

end
